theory Spec2Isabelle
  imports Main "HOL-Library.Word" "HOL-Library.Sublist"
begin

unbundle bit_operations_syntax

chapter \<open>The relayer: definitions\<close>

section \<open>Rate limiter (relayer/src/index.ts, rateLimit)\<close>

text \<open>
  One entry of the \<open>ipHits\<close> table: \<open>{ count: number; resetAt: number }\<close>. Times are
  the integer milliseconds of \<open>Date.now()\<close>.
\<close>

record hit =
  count :: nat
  resetAt :: int

type_synonym ipHits = "string \<rightharpoonup> hit"

text \<open>What the middleware does with the request: call \<open>next()\<close> or answer 429.\<close>

datatype verdict = Next | Status429

definition windowMs :: int where
  "windowMs = 2000"

definition max_hits :: nat where
  "max_hits = 25"

text \<open>
  \<open>rateLimit\<close> for a request whose origin key (the first entry of x-forwarded-for, else the
  socket's remote address, else \<open>unknown\<close>) is \<open>ip\<close>, arriving at time \<open>now\<close>. The table is
  passed in and returned updated.
\<close>

definition rateLimit :: "string \<Rightarrow> int \<Rightarrow> ipHits \<Rightarrow> verdict \<times> ipHits" where
  "rateLimit ip now tbl =
     (case tbl ip of
        None \<Rightarrow> (Next, tbl(ip \<mapsto> \<lparr>count = 1, resetAt = now + windowMs\<rparr>))
      | Some entry \<Rightarrow>
          if now > resetAt entry
          then (Next, tbl(ip \<mapsto> \<lparr>count = 1, resetAt = now + windowMs\<rparr>))
          else let entry' = entry\<lparr>count := count entry + 1\<rparr>;
                   tbl' = tbl(ip \<mapsto> entry')
               in if count entry' > max_hits then (Status429, tbl') else (Next, tbl'))"

text \<open>A run of the middleware over requests \<open>(origin key, arrival time)\<close>, in arrival order.\<close>

fun serve :: "(string \<times> int) list \<Rightarrow> ipHits \<Rightarrow> verdict list \<times> ipHits" where
  "serve [] tbl = ([], tbl)"
| "serve ((ip, now) # rs) tbl =
     (let (v, tbl') = rateLimit ip now tbl;
          (vs, tbl'') = serve rs tbl'
      in (v # vs, tbl''))"

text \<open>The verdicts that the requests of one origin received, and how many requests it sent.\<close>

definition verdicts_for :: "string \<Rightarrow> (string \<times> int) list \<Rightarrow> ipHits \<Rightarrow> verdict list" where
  "verdicts_for ip rs tbl =
     map snd (filter (\<lambda>(r, v). fst r = ip) (zip rs (fst (serve rs tbl))))"

definition hits_of :: "string \<Rightarrow> (string \<times> int) list \<Rightarrow> nat" where
  "hits_of ip rs = length (filter (\<lambda>r. fst r = ip) rs)"

section \<open>Digest construction (relayer/src/index.ts and Arena.sol)\<close>

type_synonym byte = "8 word"
type_synonym bytes = "byte list"
type_synonym address = "160 word"
type_synonym bytes32 = "256 word"
type_synonym bytes12 = "96 word"
type_synonym uint256 = "256 word"

text \<open>
  What a call into the ethers library throws. The constructors name the kind of failure;
  nothing below depends on which one it is.
\<close>

datatype thrown = InvalidArgument | NumericFault | BufferOverrun

text \<open>
  The intent kinds. The TypeScript enum gives them the numbers 0, 1, 2; the Solidity enum
  of the same name lists them in the same order and encodes a member as the \<open>uint8\<close> of its
  position.
\<close>

datatype ActionType = SET_NAME | JOIN | MOVE

fun ActionType_number :: "ActionType \<Rightarrow> int" where
  "ActionType_number SET_NAME = 0"
| "ActionType_number JOIN = 1"
| "ActionType_number MOVE = 2"

fun ActionType_position :: "ActionType \<Rightarrow> byte" where
  "ActionType_position SET_NAME = 0"
| "ActionType_position JOIN = 1"
| "ActionType_position MOVE = 2"

subsection \<open>The relayer's side: \<open>ethers.solidityPacked\<close> and \<open>ethers.keccak256\<close>\<close>

text \<open>
  \<open>toBeArray\<close> followed by \<open>zeroPadValue\<close>: the big-endian bytes of a non-negative integer,
  in a field of \<open>n\<close> bytes.
\<close>

fun toBeBytes :: "nat \<Rightarrow> nat \<Rightarrow> bytes" where
  "toBeBytes 0 v = []"
| "toBeBytes (Suc n) v = toBeBytes n (v div 256) @ [word_of_nat (v mod 256)]"

text \<open>
  A value handed to \<open>solidityPacked\<close> together with its type string: \<open>uintN\<close> with a bigint
  or number, \<open>address\<close> with an address (the 20 bytes that the address string denotes; the
  handlers admit only strings that \<open>isAddr\<close> accepts), \<open>bytesN\<close> with the data of a hex
  string.
\<close>

datatype sol_value = Uint nat int | Address address | BytesN nat bytes

text \<open>
  One packed field. A negative or too large integer and a \<open>bytesN\<close> value of another
  length make the library throw.
\<close>

fun pack :: "sol_value \<Rightarrow> thrown + bytes" where
  "pack (Uint bits v) =
     (if v < 0 then Inl NumericFault
      else if v \<ge> 2 ^ bits then Inl BufferOverrun
      else Inr (toBeBytes (bits div 8) (nat v)))"
| "pack (Address a) = Inr (toBeBytes 20 (unat a))"
| "pack (BytesN n bs) = (if length bs = n then Inr bs else Inl InvalidArgument)"

fun solidityPacked :: "sol_value list \<Rightarrow> thrown + bytes" where
  "solidityPacked [] = Inr []"
| "solidityPacked (v # vs) =
     (case pack v of
        Inl e \<Rightarrow> Inl e
      | Inr b \<Rightarrow> (case solidityPacked vs of Inl e \<Rightarrow> Inl e | Inr bs \<Rightarrow> Inr (b @ bs)))"

text \<open>
  The hash function Keccak-256 is a parameter \<open>K\<close> of the model, from byte strings to
  256-bit values. \<open>ethers.keccak256\<close> returns the hex string of the 32 bytes of the hash;
  the model keeps the bytes that the string denotes.
\<close>

definition keccak256 :: "(bytes \<Rightarrow> bytes32) \<Rightarrow> bytes \<Rightarrow> bytes" where
  "keccak256 K data = toBeBytes 32 (unat (K data))"

definition commonDomain :: "(bytes \<Rightarrow> bytes32) \<Rightarrow> int \<Rightarrow> address \<Rightarrow> thrown + bytes" where
  "commonDomain K chainId arenaAddress =
     (case solidityPacked [Uint 256 chainId, Address arenaAddress] of
        Inl e \<Rightarrow> Inl e
      | Inr packed \<Rightarrow> Inr (keccak256 K packed))"

text \<open>
  The three digest functions read the module constants \<open>CHAIN_ID\<close> and \<open>ARENA_ADDRESS\<close>;
  the model takes them as arguments.
\<close>

definition digestJoin ::
  "(bytes \<Rightarrow> bytes32) \<Rightarrow> int \<Rightarrow> address \<Rightarrow> address \<Rightarrow> int \<Rightarrow> int \<Rightarrow> thrown + bytes" where
  "digestJoin K CHAIN_ID ARENA_ADDRESS player nonce deadline =
     (case commonDomain K CHAIN_ID ARENA_ADDRESS of
        Inl e \<Rightarrow> Inl e
      | Inr domain \<Rightarrow>
          (case solidityPacked
                  [BytesN 32 domain, Uint 8 (ActionType_number JOIN), Address player,
                   Uint 256 nonce, Uint 256 deadline] of
             Inl e \<Rightarrow> Inl e
           | Inr packed \<Rightarrow> Inr (keccak256 K packed)))"

definition digestMove ::
  "(bytes \<Rightarrow> bytes32) \<Rightarrow> int \<Rightarrow> address \<Rightarrow> address \<Rightarrow> int \<Rightarrow> int \<Rightarrow> int \<Rightarrow> thrown + bytes" where
  "digestMove K CHAIN_ID ARENA_ADDRESS player dir nonce deadline =
     (case commonDomain K CHAIN_ID ARENA_ADDRESS of
        Inl e \<Rightarrow> Inl e
      | Inr domain \<Rightarrow>
          (case solidityPacked
                  [BytesN 32 domain, Uint 8 (ActionType_number MOVE), Address player,
                   Uint 8 dir, Uint 256 nonce, Uint 256 deadline] of
             Inl e \<Rightarrow> Inl e
           | Inr packed \<Rightarrow> Inr (keccak256 K packed)))"

definition digestSetName ::
  "(bytes \<Rightarrow> bytes32) \<Rightarrow> int \<Rightarrow> address \<Rightarrow> address \<Rightarrow> bytes \<Rightarrow> int \<Rightarrow> int \<Rightarrow> thrown + bytes" where
  "digestSetName K CHAIN_ID ARENA_ADDRESS player nameBytes12 nonce deadline =
     (case commonDomain K CHAIN_ID ARENA_ADDRESS of
        Inl e \<Rightarrow> Inl e
      | Inr domain \<Rightarrow>
          (case solidityPacked
                  [BytesN 32 domain, Uint 8 (ActionType_number SET_NAME), Address player,
                   BytesN 12 nameBytes12, Uint 256 nonce, Uint 256 deadline] of
             Inl e \<Rightarrow> Inl e
           | Inr packed \<Rightarrow> Inr (keccak256 K packed)))"

subsection \<open>The contract's side: \<open>abi.encodePacked\<close> and \<open>keccak256\<close> in Arena.sol\<close>

text \<open>
  The bytes of a fixed-width Solidity value, most significant first: byte \<open>i\<close> counted
  from the right is the value shifted right by \<open>8 * i\<close> bits.
\<close>

definition word_bytes :: "nat \<Rightarrow> 'a::len word \<Rightarrow> bytes" where
  "word_bytes n w = map (\<lambda>i. ucast (drop_bit (8 * i) w)) (rev [0..<n])"

datatype abi_value =
    A_uint256 uint256
  | A_uint8 byte
  | A_address address
  | A_bytes32 bytes32
  | A_bytes12 bytes12
  | A_enum ActionType

fun encode_value :: "abi_value \<Rightarrow> bytes" where
  "encode_value (A_uint256 v) = word_bytes 32 v"
| "encode_value (A_uint8 v) = [v]"
| "encode_value (A_address a) = word_bytes 20 a"
| "encode_value (A_bytes32 b) = word_bytes 32 b"
| "encode_value (A_bytes12 b) = word_bytes 12 b"
| "encode_value (A_enum k) = [ActionType_position k]"

definition encodePacked :: "abi_value list \<Rightarrow> bytes" where
  "encodePacked vs = concat (map encode_value vs)"

text \<open>
  \<open>_commonDomain\<close>, \<open>_digestSetName\<close>, \<open>_digestJoin\<close> and \<open>_digestMove\<close> of the contract, which
  read \<open>block.chainid\<close> and \<open>address(this)\<close>; here they are the arguments \<open>chainid\<close> and \<open>this\<close>.
\<close>

definition arena_commonDomain :: "(bytes \<Rightarrow> bytes32) \<Rightarrow> uint256 \<Rightarrow> address \<Rightarrow> bytes32" where
  "arena_commonDomain K chainid this = K (encodePacked [A_uint256 chainid, A_address this])"

definition arena_digestSetName ::
  "(bytes \<Rightarrow> bytes32) \<Rightarrow> uint256 \<Rightarrow> address \<Rightarrow> address \<Rightarrow> bytes12 \<Rightarrow> uint256 \<Rightarrow> uint256 \<Rightarrow> bytes32"
  where
  "arena_digestSetName K chainid this player newName nonce deadline =
     K (encodePacked
          [A_bytes32 (arena_commonDomain K chainid this), A_enum SET_NAME, A_address player,
           A_bytes12 newName, A_uint256 nonce, A_uint256 deadline])"

definition arena_digestJoin ::
  "(bytes \<Rightarrow> bytes32) \<Rightarrow> uint256 \<Rightarrow> address \<Rightarrow> address \<Rightarrow> uint256 \<Rightarrow> uint256 \<Rightarrow> bytes32" where
  "arena_digestJoin K chainid this player nonce deadline =
     K (encodePacked
          [A_bytes32 (arena_commonDomain K chainid this), A_enum JOIN, A_address player,
           A_uint256 nonce, A_uint256 deadline])"

definition arena_digestMove ::
  "(bytes \<Rightarrow> bytes32) \<Rightarrow> uint256 \<Rightarrow> address \<Rightarrow> address \<Rightarrow> byte \<Rightarrow> uint256 \<Rightarrow> uint256 \<Rightarrow> bytes32"
  where
  "arena_digestMove K chainid this player dir nonce deadline =
     K (encodePacked
          [A_bytes32 (arena_commonDomain K chainid this), A_enum MOVE, A_address player,
           A_uint8 dir, A_uint256 nonce, A_uint256 deadline])"

section \<open>Signature verifier (relayer/src/index.ts, verifyBurnerSignature)\<close>

text \<open>
  Strings of the model are ASCII strings (addresses, hex data, error messages), one \<open>char\<close>
  per UTF-16 code unit. On those, \<open>String.prototype.toLowerCase\<close> maps \<open>A\<close> to \<open>Z\<close> onto \<open>a\<close>
  to \<open>z\<close> and leaves every other character alone.
\<close>

definition lower_char :: "char \<Rightarrow> char" where
  "lower_char c =
     (if 65 \<le> (of_char c :: nat) \<and> (of_char c :: nat) \<le> 90
      then char_of (of_char c + (32 :: nat)) else c)"

definition toLowerCase :: "string \<Rightarrow> string" where
  "toLowerCase s = map lower_char s"














section \<open>Error responses of the intent handlers (relayer/src/index.ts)\<close>












section \<open>Submission queue and in-flight table (relayer/src/index.ts, enqueue, enqueueMoveOnce)\<close>

subsection \<open>Promises\<close>

text \<open>
  The queue is a chain of promises, so the model has a heap of promise objects and the
  queue of microtask jobs of the event loop. A task (the closure that a handler passes to
  \<open>enqueue\<close>) is referred to by the number of the closure. A promise is referred to by
  its address in the heap, and an address is the name of the place that allocates the
  promise together with how often that place has run before: \<open>Ret i\<close>, \<open>Run i\<close> and
  \<open>Tail i\<close> are the promise of the \<open>i\<close>-th call of \<open>enqueue\<close> itself, its \<open>run\<close> and the tail
  it installs; \<open>Ext i\<close> is the promise that the \<open>i\<close>-th external submission returned and
  \<open>Wrap i\<close> the promise of the async closure of \<open>enqueueMoveOnce\<close> around that
  submission; \<open>Initial\<close> is the \<open>Promise.resolve()\<close> of start-up. Every allocation
  advances one of the two counts, so no address is handed out twice.
\<close>

type_synonym tid = nat

datatype pid = Initial | Ret nat | Run nat | Tail nat | Ext nat | Wrap nat

datatype val = Undefined | Val nat

datatype outcome = Fulfilled val | Rejected val

datatype pstate = Pending | Settled outcome

text \<open>
  The functions that this program hands to promises: \<open>Task t\<close> is a handler's closure
  \<open>() => arena.joinFor(...)\<close> (or \<open>moveFor\<close>, \<open>setNameFor\<close>, \<open>kickInactive\<close>);
  \<open>MoveTask key t\<close> is the async closure of \<open>enqueueMoveOnce\<close> around the task \<open>t\<close>;
  \<open>ReturnUndefined\<close> is \<open>() => undefined\<close>; \<open>ResolveWith p\<close> and \<open>RejectWith p\<close> are the
  resolving functions of the promise \<open>p\<close>; \<open>AfterAwait key w\<close> and \<open>AfterAwaitThrow key w\<close>
  are the rest of the body of \<open>MoveTask\<close> after its \<open>await\<close>, for a value and for an
  exception, where \<open>w\<close> is the promise of that async call.
\<close>

datatype callback =
    Task tid
  | MoveTask string tid
  | ReturnUndefined
  | ResolveWith pid
  | RejectWith pid
  | AfterAwait string pid
  | AfterAwaitThrow string pid

text \<open>
  A reaction registered on a promise: the handlers for fulfilment and for rejection, and
  the promise that \<open>then\<close> returned for the outcome of the handler (none for the internal
  subscriptions of \<open>await\<close> and of following another promise).
\<close>

datatype reaction = Reaction callback callback "pid option"

datatype job = ReactionJob callback val "pid option" | ResolveThenableJob pid pid

record promise =
  p_state :: pstate
  p_reactions :: "reaction list"

text \<open>
  The state of the process: the heap, the microtask queue, the module variables \<open>tail\<close>
  and \<open>moveInFlight\<close>, the number of closures made by handlers so far, and two histories
  that no operation reads back: the callbacks passed to \<open>enqueue\<close>, in the order of the
  calls, and the tasks whose call the external submitter received, in the order in which
  it received them.
\<close>

record world =
  heap :: "pid \<Rightarrow> promise"
  microtasks :: "job list"
  tail :: pid
  moveInFlight :: "string \<rightharpoonup> pid"
  closures :: tid
  queue_log :: "callback list"
  calls :: "tid list"

definition new_promise :: "pid \<Rightarrow> world \<Rightarrow> pid \<times> world" where
  "new_promise a w = (a, w\<lparr>heap := (heap w)(a := \<lparr>p_state = Pending, p_reactions = []\<rparr>)\<rparr>)"

definition schedule :: "job \<Rightarrow> world \<Rightarrow> world" where
  "schedule j w = w\<lparr>microtasks := microtasks w @ [j]\<rparr>"

fun reaction_job :: "outcome \<Rightarrow> reaction \<Rightarrow> job" where
  "reaction_job (Fulfilled v) (Reaction f r d) = ReactionJob f v d"
| "reaction_job (Rejected v) (Reaction f r d) = ReactionJob r v d"

text \<open>
  PerformPromiseThen: on a pending promise the reaction is stored, on a settled one its
  job is queued at once.
\<close>

definition perform_then :: "pid \<Rightarrow> reaction \<Rightarrow> world \<Rightarrow> world" where
  "perform_then p r w =
     (case p_state (heap w p) of
        Pending \<Rightarrow>
          w\<lparr>heap := (heap w)(p := \<lparr>p_state = Pending,
                                      p_reactions = p_reactions (heap w p) @ [r]\<rparr>)\<rparr>
      | Settled out \<Rightarrow> schedule (reaction_job out r) w)"

text \<open>\<open>p.then(f, r)\<close>: a new promise for the handler's outcome, and the subscription.\<close>

definition promise_then :: "pid \<Rightarrow> callback \<Rightarrow> callback \<Rightarrow> pid \<Rightarrow> world \<Rightarrow> pid \<times> world" where
  "promise_then p f r a w =
     (let (d, w1) = new_promise a w
      in (d, perform_then p (Reaction f r (Some d)) w1))"

text \<open>
  FulfillPromise and RejectPromise: a pending promise takes the outcome and its reactions
  become jobs, in the order of their registration; a settled promise stays as it is.
\<close>

definition settle :: "pid \<Rightarrow> outcome \<Rightarrow> world \<Rightarrow> world" where
  "settle p out w =
     (case p_state (heap w p) of
        Settled _ \<Rightarrow> w
      | Pending \<Rightarrow>
          w\<lparr>heap := (heap w)(p := \<lparr>p_state = Settled out, p_reactions = []\<rparr>),
            microtasks := microtasks w @ map (reaction_job out) (p_reactions (heap w p))\<rparr>)"

text \<open>
  Resolving a promise with another promise: a job is queued that will subscribe the first
  to the second (NewPromiseResolveThenableJob).
\<close>

definition resolve_thenable :: "pid \<Rightarrow> pid \<Rightarrow> world \<Rightarrow> world" where
  "resolve_thenable p q w = schedule (ResolveThenableJob p q) w"

datatype completion = Return val | ReturnPromise pid

text \<open>
  Calling a callback with an argument. A task calls the contract through the shared
  signer: the external submitter records the call and returns a new pending promise,
  which the environment settles later (the event \<open>Settle\<close> below). The async closure of \<open>enqueueMoveOnce\<close> makes its
  own promise, calls the task, awaits the task's promise and returns; after the await it
  runs its \<open>finally\<close> (deleting the key) and completes its own promise the same way.
\<close>

fun call_cb :: "callback \<Rightarrow> val \<Rightarrow> world \<Rightarrow> completion \<times> world" where
  "call_cb (Task t) arg w =
     (let i = length (calls w);
          (P, w1) = new_promise (Ext i) w
      in (ReturnPromise P, w1\<lparr>calls := calls w1 @ [t]\<rparr>))"
| "call_cb (MoveTask key t) arg w =
     (let i = length (calls w);
          (W, w1) = new_promise (Wrap i) w;
          (P, w2) = new_promise (Ext i) w1;
          w3 = w2\<lparr>calls := calls w2 @ [t]\<rparr>
      in (ReturnPromise W,
          perform_then P (Reaction (AfterAwait key W) (AfterAwaitThrow key W) None) w3))"
| "call_cb ReturnUndefined arg w = (Return Undefined, w)"
| "call_cb (ResolveWith p) arg w = (Return Undefined, settle p (Fulfilled arg) w)"
| "call_cb (RejectWith p) arg w = (Return Undefined, settle p (Rejected arg) w)"
| "call_cb (AfterAwait key W) arg w =
     (Return Undefined,
      settle W (Fulfilled arg) (w\<lparr>moveInFlight := (moveInFlight w)(key := None)\<rparr>))"
| "call_cb (AfterAwaitThrow key W) arg w =
     (Return Undefined,
      settle W (Rejected arg) (w\<lparr>moveInFlight := (moveInFlight w)(key := None)\<rparr>))"

fun resolve_derived :: "pid \<Rightarrow> completion \<Rightarrow> world \<Rightarrow> world" where
  "resolve_derived d (Return v) w = settle d (Fulfilled v) w"
| "resolve_derived d (ReturnPromise q) w = resolve_thenable d q w"

fun run_job :: "job \<Rightarrow> world \<Rightarrow> world" where
  "run_job (ReactionJob cb arg d) w =
     (let (c, w1) = call_cb cb arg w
      in case d of None \<Rightarrow> w1 | Some dp \<Rightarrow> resolve_derived dp c w1)"
| "run_job (ResolveThenableJob p q) w =
     perform_then q (Reaction (ResolveWith p) (RejectWith p) None) w"

subsection \<open>The queue and the table\<close>

text \<open>
  \<open>enqueue(fn)\<close>. The function is async: its own promise \<open>ret\<close> is made first and, at the
  \<open>return run\<close>, resolved with \<open>run\<close>. The body runs without interruption.
\<close>

definition enqueue :: "callback \<Rightarrow> world \<Rightarrow> pid \<times> world" where
  "enqueue fn w =
     (let i = length (queue_log w);
          (ret, w1) = new_promise (Ret i) w;
          (run, w2) = promise_then (tail w1) fn fn (Run i) w1;
          (t, w3) = promise_then run ReturnUndefined ReturnUndefined (Tail i) w2;
          w4 = w3\<lparr>tail := t\<rparr>;
          w5 = resolve_thenable ret run w4
      in (ret, w5\<lparr>queue_log := queue_log w5 @ [fn]\<rparr>))"

text \<open>
  \<open>enqueueMoveOnce(player, fn)\<close> for the task \<open>t\<close>: the flag \<open>deduped\<close> and the promise of
  the result object, with the new state.
\<close>

definition enqueueMoveOnce :: "string \<Rightarrow> tid \<Rightarrow> world \<Rightarrow> (bool \<times> pid) \<times> world" where
  "enqueueMoveOnce player t w =
     (let key = toLowerCase player
      in case moveInFlight w key of
           Some existing \<Rightarrow> ((True, existing), w)
         | None \<Rightarrow>
             (let (p, w1) = enqueue (MoveTask key t) w
              in ((False, p), w1\<lparr>moveInFlight := (moveInFlight w1)(key \<mapsto> p)\<rparr>)))"

subsection \<open>Events\<close>

text \<open>
  What can happen, in any order: a handler other than \<open>/move\<close> reaches its call of
  \<open>enqueue\<close> with a new closure; the \<open>/move\<close> handler reaches its call of
  \<open>enqueueMoveOnce\<close> for a player with a new closure; the event loop runs the first
  microtask; the external submitter settles the promise of the \<open>i\<close>-th call it received.
\<close>

datatype event = Enqueue | Move string | Tick | Settle nat outcome

definition new_closure :: "world \<Rightarrow> tid \<times> world" where
  "new_closure w = (closures w, w\<lparr>closures := Suc (closures w)\<rparr>)"

fun step :: "event \<Rightarrow> world \<Rightarrow> world" where
  "step Enqueue w = (let (t, w1) = new_closure w in snd (enqueue (Task t) w1))"
| "step (Move player) w = (let (t, w1) = new_closure w in snd (enqueueMoveOnce player t w1))"
| "step Tick w =
     (case microtasks w of [] \<Rightarrow> w | j # js \<Rightarrow> run_job j (w\<lparr>microtasks := js\<rparr>))"
| "step (Settle i out) w =
     (if i < length (calls w) then settle (Ext i) out w else w)"

definition run :: "event list \<Rightarrow> world \<Rightarrow> world" where
  "run evs w = foldl (\<lambda>w ev. step ev w) w evs"

text \<open>At start-up \<open>tail\<close> is \<open>Promise.resolve()\<close> and the table is empty.\<close>

definition initial :: world where
  "initial =
     \<lparr>heap = (\<lambda>p. \<lparr>p_state = Pending, p_reactions = []\<rparr>)
               (Initial := \<lparr>p_state = Settled (Fulfilled Undefined), p_reactions = []\<rparr>),
      microtasks = [], tail = Initial, moveInFlight = Map.empty, closures = 0,
      queue_log = [], calls = []\<rparr>"

subsection \<open>The shape of the reachable states\<close>

definition state_of :: "world \<Rightarrow> pid \<Rightarrow> pstate" where
  "state_of w p = p_state (heap w p)"

definition reacts_of :: "world \<Rightarrow> pid \<Rightarrow> reaction list" where
  "reacts_of w p = p_reactions (heap w p)"

fun task_of :: "callback \<Rightarrow> tid" where
  "task_of (Task t) = t"
| "task_of (MoveTask key t) = t"
| "task_of _ = 0"

fun is_task :: "callback \<Rightarrow> bool" where
  "is_task (Task t) = True"
| "is_task (MoveTask key t) = True"
| "is_task _ = False"

fun is_move :: "callback \<Rightarrow> bool" where
  "is_move (MoveTask key t) = True"
| "is_move _ = False"

fun key_of :: "callback \<Rightarrow> string" where
  "key_of (MoveTask key t) = key"
| "key_of _ = []"

text \<open>
  For the \<open>i\<close>-th call of \<open>enqueue\<close>: the tail it found, and the promise that its callback
  returns when it is called (the submitter's promise, or the promise of the closure around
  it).
\<close>

fun prev_of :: "nat \<Rightarrow> pid" where
  "prev_of 0 = Initial"
| "prev_of (Suc i) = Tail i"

definition res_of :: "world \<Rightarrow> nat \<Rightarrow> pid" where
  "res_of w i = (if is_move (queue_log w ! i) then Wrap i else Ext i)"

text \<open>The jobs that a reaction gives once its promise is in the state \<open>s\<close>.\<close>

fun fired :: "pstate \<Rightarrow> reaction \<Rightarrow> job set" where
  "fired Pending r = {}"
| "fired (Settled out) r = {reaction_job out r}"

text \<open>
  A promise \<open>p\<close> that was resolved with the promise \<open>q\<close> follows it: while \<open>p\<close> is pending
  either the subscribing job is still queued, or \<open>p\<close> is subscribed to the pending \<open>q\<close>, or
  \<open>q\<close> has settled and the job that settles \<open>p\<close> is queued.
\<close>

definition follower :: "pid \<Rightarrow> reaction" where
  "follower p = Reaction (ResolveWith p) (RejectWith p) None"

definition adopting :: "world \<Rightarrow> pid \<Rightarrow> pid \<Rightarrow> bool" where
  "adopting w p q = (ResolveThenableJob p q \<in> set (microtasks w))"

definition follow_reacts :: "world \<Rightarrow> pid \<Rightarrow> pid \<Rightarrow> reaction list" where
  "follow_reacts w p q =
     (if state_of w p = Pending \<and> \<not> adopting w p q \<and> state_of w q = Pending
      then [follower p] else [])"

definition follow_jobs :: "world \<Rightarrow> pid \<Rightarrow> pid \<Rightarrow> job set" where
  "follow_jobs w p q =
     (if state_of w p = Pending
      then (if adopting w p q then {ResolveThenableJob p q}
            else fired (state_of w q) (follower p))
      else {})"

definition awaiter :: "string \<Rightarrow> pid \<Rightarrow> reaction" where
  "awaiter key W = Reaction (AfterAwait key W) (AfterAwaitThrow key W) None"

definition starter :: "world \<Rightarrow> nat \<Rightarrow> reaction" where
  "starter w i = Reaction (queue_log w ! i) (queue_log w ! i) (Some (Run i))"

definition tailer :: "nat \<Rightarrow> reaction" where
  "tailer i = Reaction ReturnUndefined ReturnUndefined (Some (Tail i))"

text \<open>
  The jobs that belong to the \<open>i\<close>-th entry of the queue, by the state of its promises:
  the job that calls its callback, the job that fulfils its tail, the jobs by which its
  \<open>ret\<close> follows its \<open>run\<close> and its \<open>run\<close> follows the promise that the callback returned,
  and the job that continues the closure of \<open>enqueueMoveOnce\<close> after its \<open>await\<close>.
\<close>

definition start_jobs :: "world \<Rightarrow> nat \<Rightarrow> job set" where
  "start_jobs w i =
     (if length (calls w) \<le> i then fired (state_of w (prev_of i)) (starter w i) else {})"

definition tail_jobs :: "world \<Rightarrow> nat \<Rightarrow> job set" where
  "tail_jobs w i =
     (if state_of w (Tail i) = Pending then fired (state_of w (Run i)) (tailer i) else {})"

definition run_jobs :: "world \<Rightarrow> nat \<Rightarrow> job set" where
  "run_jobs w i = (if i < length (calls w) then follow_jobs w (Run i) (res_of w i) else {})"

definition await_jobs :: "world \<Rightarrow> nat \<Rightarrow> job set" where
  "await_jobs w i =
     (if i < length (calls w) \<and> is_move (queue_log w ! i) \<and> state_of w (Wrap i) = Pending
      then fired (state_of w (Ext i)) (awaiter (key_of (queue_log w ! i)) (Wrap i))
      else {})"

definition entry_jobs :: "world \<Rightarrow> nat \<Rightarrow> job set" where
  "entry_jobs w i =
     start_jobs w i \<union> tail_jobs w i \<union> follow_jobs w (Ret i) (Run i) \<union> run_jobs w i \<union>
     await_jobs w i"

text \<open>What a job is for, read off the job alone, and the entry it belongs to.\<close>

datatype purpose = Start | SetTail | AdoptRet | SettleRet | AdoptRun | SettleRun | Await

fun kind :: "job \<Rightarrow> (purpose \<times> nat) option" where
  "kind (ReactionJob cb v (Some (Run i))) = Some (Start, i)"
| "kind (ReactionJob cb v (Some (Tail i))) = Some (SetTail, i)"
| "kind (ReactionJob (ResolveWith (Ret i)) v None) = Some (SettleRet, i)"
| "kind (ReactionJob (RejectWith (Ret i)) v None) = Some (SettleRet, i)"
| "kind (ReactionJob (ResolveWith (Run i)) v None) = Some (SettleRun, i)"
| "kind (ReactionJob (RejectWith (Run i)) v None) = Some (SettleRun, i)"
| "kind (ReactionJob (AfterAwait key (Wrap i)) v None) = Some (Await, i)"
| "kind (ReactionJob (AfterAwaitThrow key (Wrap i)) v None) = Some (Await, i)"
| "kind (ResolveThenableJob (Ret i) q) = Some (AdoptRet, i)"
| "kind (ResolveThenableJob (Run i) q) = Some (AdoptRun, i)"
| "kind _ = None"

text \<open>The reactions that a promise holds.\<close>

fun expected_reactions :: "world \<Rightarrow> pid \<Rightarrow> reaction list" where
  "expected_reactions w Initial = []"
| "expected_reactions w (Ret i) = []"
| "expected_reactions w (Run i) =
     (if i < length (queue_log w) \<and> state_of w (Run i) = Pending
      then tailer i # follow_reacts w (Ret i) (Run i) else [])"
| "expected_reactions w (Tail i) =
     (if Suc i < length (queue_log w) \<and> state_of w (Tail i) = Pending
      then [starter w (Suc i)] else [])"
| "expected_reactions w (Ext i) =
     (if i < length (calls w)
      then (if is_move (queue_log w ! i)
            then (if state_of w (Ext i) = Pending
                  then [awaiter (key_of (queue_log w ! i)) (Wrap i)] else [])
            else follow_reacts w (Run i) (Ext i))
      else [])"
| "expected_reactions w (Wrap i) =
     (if i < length (calls w) \<and> is_move (queue_log w ! i)
      then follow_reacts w (Run i) (Wrap i) else [])"

definition inv_struct :: "world \<Rightarrow> bool" where
  "inv_struct w =
     (length (calls w) \<le> length (queue_log w) \<and>
      tail w = prev_of (length (queue_log w)) \<and>
      (\<forall>i < length (queue_log w). is_task (queue_log w ! i)) \<and>
      (\<forall>i < length (calls w). calls w ! i = task_of (queue_log w ! i)))"

text \<open>How the states of the promises of one entry depend on each other.\<close>

definition entry_states :: "world \<Rightarrow> nat \<Rightarrow> bool" where
  "entry_states w i =
     ((state_of w (Tail i) = Pending \<or>
       state_of w (Tail i) = Settled (Fulfilled Undefined)) \<and>
      (state_of w (Tail i) \<noteq> Pending \<longrightarrow> state_of w (Run i) \<noteq> Pending) \<and>
      (state_of w (Run i) \<noteq> Pending \<longrightarrow>
         i < length (calls w) \<and> state_of w (Run i) = state_of w (res_of w i)) \<and>
      (state_of w (Ret i) \<noteq> Pending \<longrightarrow> state_of w (Ret i) = state_of w (Run i)) \<and>
      (i < length (calls w) \<longrightarrow> state_of w (prev_of i) \<noteq> Pending) \<and>
      (i < length (calls w) \<and> is_move (queue_log w ! i) \<and>
       state_of w (Wrap i) \<noteq> Pending \<longrightarrow>
         state_of w (Wrap i) = state_of w (Ext i)))"

definition inv_states :: "world \<Rightarrow> bool" where
  "inv_states w =
     (state_of w Initial = Settled (Fulfilled Undefined) \<and>
      (\<forall>i < length (queue_log w). entry_states w i))"

definition inv_reacts :: "world \<Rightarrow> bool" where
  "inv_reacts w = (\<forall>p. reacts_of w p = expected_reactions w p)"

definition inv_jobs :: "world \<Rightarrow> bool" where
  "inv_jobs w =
     (distinct (microtasks w) \<and>
      set (microtasks w) = (\<Union>i < length (queue_log w). entry_jobs w i))"

text \<open>
  An entry of the queue made by \<open>enqueueMoveOnce\<close> is live until the closure around its
  task has completed. The table holds exactly the live entries, under their keys.
\<close>

definition live_move :: "world \<Rightarrow> string \<Rightarrow> nat \<Rightarrow> bool" where
  "live_move w key i =
     (i < length (queue_log w) \<and> is_move (queue_log w ! i) \<and>
      key_of (queue_log w ! i) = key \<and>
      \<not> (i < length (calls w) \<and> state_of w (Wrap i) \<noteq> Pending))"

definition inv_table :: "world \<Rightarrow> bool" where
  "inv_table w =
     ((\<forall>i < length (queue_log w).
         live_move w (key_of (queue_log w ! i)) i \<longrightarrow>
           moveInFlight w (key_of (queue_log w ! i)) = Some (Ret i)) \<and>
      (\<forall>key p. moveInFlight w key = Some p \<longrightarrow>
         (\<exists>i < length (queue_log w). live_move w key i \<and> p = Ret i)))"

definition inv :: "world \<Rightarrow> bool" where
  "inv w = (inv_struct w \<and> inv_states w \<and> inv_reacts w \<and> inv_jobs w \<and> inv_table w)"

text \<open>
  The promises that exist in a state: the initial tail, three for each call of \<open>enqueue\<close>,
  and those made when a callback was called.
\<close>

fun allocated :: "world \<Rightarrow> pid \<Rightarrow> bool" where
  "allocated w Initial = True"
| "allocated w (Ret i) = (i < length (queue_log w))"
| "allocated w (Run i) = (i < length (queue_log w))"
| "allocated w (Tail i) = (i < length (queue_log w))"
| "allocated w (Ext i) = (i < length (calls w))"
| "allocated w (Wrap i) = (i < length (calls w))"

subsection \<open>The work left in the microtask queue\<close>

text \<open>
  A bound on the number of microtask steps that a state can still take without a new event:
  each job counts for itself and for what running it can add, a pending reaction for the
  job that it becomes.
\<close>

fun callback_weight :: "callback \<Rightarrow> nat" where
  "callback_weight (Task t) = 3"
| "callback_weight (MoveTask key t) = 4"
| "callback_weight _ = 1"

fun job_weight :: "job \<Rightarrow> nat" where
  "job_weight (ReactionJob cb v d) = callback_weight cb"
| "job_weight (ResolveThenableJob p q) = 2"

fun reaction_weight :: "reaction \<Rightarrow> nat" where
  "reaction_weight (Reaction f r d) = max (callback_weight f) (callback_weight r)"

definition pids :: "world \<Rightarrow> pid list" where
  "pids w =
     Initial # concat (map (\<lambda>i. [Ret i, Run i, Tail i]) [0..<length (queue_log w)]) @
     concat (map (\<lambda>i. [Ext i, Wrap i]) [0..<length (calls w)])"

definition reactions_weight :: "world \<Rightarrow> pid \<Rightarrow> nat" where
  "reactions_weight w p = sum_list (map reaction_weight (reacts_of w p))"

definition work :: "world \<Rightarrow> nat" where
  "work w =
     sum_list (map job_weight (microtasks w)) + sum_list (map (reactions_weight w) (pids w))"

text \<open>No reaction is registered on a promise that does not exist yet.\<close>

definition clean :: "world \<Rightarrow> bool" where
  "clean w = (\<forall>p. \<not> allocated w p \<longrightarrow> reacts_of w p = [])"

chapter \<open>The relayer: properties\<close>

section \<open>Rate limiter\<close>

lemma serve_Cons:
  "serve ((ip, now) # rs) tbl =
     (fst (rateLimit ip now tbl) # fst (serve rs (snd (rateLimit ip now tbl))),
      snd (serve rs (snd (rateLimit ip now tbl))))"
  by (simp split: prod.splits)

lemma rateLimit_other: "k \<noteq> ip \<Longrightarrow> snd (rateLimit k now tbl) ip = tbl ip"
  by (auto simp: rateLimit_def Let_def split: option.splits)

lemma rateLimit_in_window:
  "tbl ip = Some e \<Longrightarrow> now \<le> resetAt e \<Longrightarrow>
   rateLimit ip now tbl =
     (if count e + 1 > max_hits then Status429 else Next,
      tbl(ip \<mapsto> e\<lparr>count := count e + 1\<rparr>))"
  by (auto simp: rateLimit_def Let_def)

lemma rateLimit_fresh:
  "tbl ip = None \<or> (\<exists>e. tbl ip = Some e \<and> resetAt e < now) \<Longrightarrow>
   rateLimit ip now tbl = (Next, tbl(ip \<mapsto> \<lparr>count = 1, resetAt = now + windowMs\<rparr>))"
  by (auto simp: rateLimit_def Let_def)

lemma verdicts_for_Cons:
  "verdicts_for ip ((k, t) # rs) tbl =
     (if k = ip then [fst (rateLimit k t tbl)] else []) @
     verdicts_for ip rs (snd (rateLimit k t tbl))"
  by (simp add: verdicts_for_def serve_Cons del: serve.simps)

lemma hits_of_Cons:
  "hits_of ip ((k, t) # rs) = (if k = ip then Suc (hits_of ip rs) else hits_of ip rs)"
  by (simp add: hits_of_def)

lemma upt_Suc_shift: "[0..<Suc n] = 0 # map Suc [0..<n]"
  by (simp add: upt_conv_Cons map_Suc_upt del: upt_Suc)

text \<open>
  Inside a window the counter alone decides: with \<open>count e\<close> requests counted so far, the
  \<open>j\<close>-th further request of the origin is refused as soon as the count passes the maximum.
  Requests of other origins in between change nothing.
\<close>

lemma counting:
  "tbl ip = Some e \<Longrightarrow> \<forall>(k, t) \<in> set rs. k = ip \<longrightarrow> t \<le> resetAt e \<Longrightarrow>
   verdicts_for ip rs tbl =
     map (\<lambda>j. if count e + j + 1 > max_hits then Status429 else Next) [0..<hits_of ip rs]"
proof (induction rs arbitrary: tbl e)
  case Nil
  then show ?case by (simp add: verdicts_for_def hits_of_def)
next
  case (Cons r rs)
  obtain k t where r: "r = (k, t)" by (cases r)
  show ?case
  proof (cases "k = ip")
    case True
    with Cons.prems r have tw: "t \<le> resetAt e" by auto
    let ?e = "e\<lparr>count := count e + 1\<rparr>"
    have rl: "rateLimit ip t tbl =
        (if count e + 1 > max_hits then Status429 else Next, tbl(ip \<mapsto> ?e))"
      using Cons.prems(1) tw by (rule rateLimit_in_window)
    have ih: "verdicts_for ip rs (tbl(ip \<mapsto> ?e)) =
        map (\<lambda>j. if count ?e + j + 1 > max_hits then Status429 else Next) [0..<hits_of ip rs]"
      by (rule Cons.IH) (use Cons.prems r in auto)
    show ?thesis
      using True r rl ih
      by (simp add: verdicts_for_Cons hits_of_Cons upt_Suc_shift comp_def del: upt_Suc)
  next
    case False
    have "snd (rateLimit k t tbl) ip = Some e"
      using rateLimit_other [OF False] Cons.prems(1) by simp
    then have "verdicts_for ip rs (snd (rateLimit k t tbl)) =
        map (\<lambda>j. if count e + j + 1 > max_hits then Status429 else Next) [0..<hits_of ip rs]"
      by (rule Cons.IH) (use Cons.prems r in auto)
    then show ?thesis using False r by (simp add: verdicts_for_Cons hits_of_Cons)
  qed
qed

lemma window_verdicts:
  assumes fresh: "tbl ip = None \<or> (\<exists>e. tbl ip = Some e \<and> resetAt e < t1)"
    and win: "\<forall>(k, t) \<in> set rs. k = ip \<longrightarrow> t \<le> t1 + windowMs"
  shows "verdicts_for ip ((ip, t1) # rs) tbl =
     map (\<lambda>j. if j < max_hits then Next else Status429) [0..<Suc (hits_of ip rs)]"
proof -
  let ?e = "\<lparr>count = 1, resetAt = t1 + windowMs\<rparr>"
  have rl: "rateLimit ip t1 tbl = (Next, tbl(ip \<mapsto> ?e))"
    using fresh by (rule rateLimit_fresh)
  have "verdicts_for ip rs (tbl(ip \<mapsto> ?e)) =
     map (\<lambda>j. if count ?e + j + 1 > max_hits then Status429 else Next) [0..<hits_of ip rs]"
    by (rule counting) (use win in auto)
  then show ?thesis
    using rl by (simp add: verdicts_for_Cons upt_Suc_shift comp_def max_hits_def del: upt_Suc)
qed

lemma map_threshold:
  "map (\<lambda>j. if j < m then a else b) [0..<n] = replicate (min n m) a @ replicate (n - m) b"
proof (induction n)
  case 0
  show ?case by simp
next
  case (Suc n)
  show ?case
  proof (cases "n < m")
    case True
    then show ?thesis using Suc by (simp add: min_def replicate_append_same)
  next
    case False
    then have "Suc n - m = Suc (n - m)" by simp
    then show ?thesis using Suc False by (simp add: min_def replicate_append_same)
  qed
qed

text \<open>
  Claim C8. The window is 2000 ms long and admits 25 requests. When a request of origin
  \<open>ip\<close> at time \<open>t1\<close> opens a window (the origin has no entry, or its entry has expired) and
  the origin's later requests arrive no later than \<open>t1 + 2000\<close>, then, whatever other
  origins send in between, the origin's first 25 requests are passed on and every further
  one is answered 429; with 26 requests exactly the 26th is refused. A request that
  arrives after \<open>resetAt\<close> is passed on and restarts the entry at count 1 with a new window.
\<close>

theorem rateLimit_fixed_window:
  "windowMs = 2000 \<and> max_hits = 25 \<and>
   ((tbl ip = None \<or> (\<exists>e. tbl ip = Some e \<and> resetAt e < t1)) \<and>
    (\<forall>(k, t) \<in> set rs. k = ip \<longrightarrow> t \<le> t1 + 2000) \<longrightarrow>
      verdicts_for ip ((ip, t1) # rs) tbl =
        replicate (min (Suc (hits_of ip rs)) 25) Next @
        replicate (Suc (hits_of ip rs) - 25) Status429 \<and>
      (hits_of ip rs = 25 \<longrightarrow>
        verdicts_for ip ((ip, t1) # rs) tbl = replicate 25 Next @ [Status429])) \<and>
   (tbl ip = Some e' \<and> resetAt e' < now \<longrightarrow>
      rateLimit ip now tbl = (Next, tbl(ip \<mapsto> \<lparr>count = 1, resetAt = now + 2000\<rparr>)))"
proof -
  have gen: "verdicts_for ip ((ip, t1) # rs) tbl =
        replicate (min (Suc (hits_of ip rs)) 25) Next @
        replicate (Suc (hits_of ip rs) - 25) Status429"
    if "tbl ip = None \<or> (\<exists>e. tbl ip = Some e \<and> resetAt e < t1)"
      and "\<forall>(k, t) \<in> set rs. k = ip \<longrightarrow> t \<le> t1 + 2000"
  proof -
    have "verdicts_for ip ((ip, t1) # rs) tbl =
        map (\<lambda>j. if j < max_hits then Next else Status429) [0..<Suc (hits_of ip rs)]"
      by (rule window_verdicts) (use that in \<open>auto simp: windowMs_def\<close>)
    then show ?thesis
      by (simp only: map_threshold max_hits_def)
  qed
  have reset: "rateLimit ip now tbl = (Next, tbl(ip \<mapsto> \<lparr>count = 1, resetAt = now + 2000\<rparr>))"
    if "tbl ip = Some e'" "resetAt e' < now"
    using rateLimit_fresh [of tbl ip now] that by (simp add: windowMs_def)
  have arith: "min (Suc 25) 25 = (25::nat)" "Suc 25 - 25 = Suc 0"
    by simp_all
  have last: "verdicts_for ip ((ip, t1) # rs) tbl = replicate 25 Next @ [Status429]"
    if "tbl ip = None \<or> (\<exists>e. tbl ip = Some e \<and> resetAt e < t1)"
      and "\<forall>(k, t) \<in> set rs. k = ip \<longrightarrow> t \<le> t1 + 2000"
      and "hits_of ip rs = 25"
    using gen [OF that(1,2)] by (simp only: that(3) arith replicate.simps)
  show ?thesis
  proof (intro conjI impI)
    show "windowMs = 2000" by (simp add: windowMs_def)
    show "max_hits = 25" by (simp add: max_hits_def)
  next
    assume "(tbl ip = None \<or> (\<exists>e. tbl ip = Some e \<and> resetAt e < t1)) \<and>
      (\<forall>(k, t) \<in> set rs. k = ip \<longrightarrow> t \<le> t1 + 2000)"
    then show "verdicts_for ip ((ip, t1) # rs) tbl =
        replicate (min (Suc (hits_of ip rs)) 25) Next @
        replicate (Suc (hits_of ip rs) - 25) Status429"
      using gen by blast
  next
    assume "(tbl ip = None \<or> (\<exists>e. tbl ip = Some e \<and> resetAt e < t1)) \<and>
      (\<forall>(k, t) \<in> set rs. k = ip \<longrightarrow> t \<le> t1 + 2000)"
      and "hits_of ip rs = 25"
    then show "verdicts_for ip ((ip, t1) # rs) tbl = replicate 25 Next @ [Status429]"
      using last by blast
  next
    assume "tbl ip = Some e' \<and> resetAt e' < now"
    then show "rateLimit ip now tbl =
        (Next, tbl(ip \<mapsto> \<lparr>count = 1, resetAt = now + 2000\<rparr>))"
      using reset by blast
  qed
qed

text \<open>
  The same at a concrete run: origin \<open>a\<close> sends 26 requests within 2 seconds, another
  origin sends one in between; later \<open>a\<close> comes back after its window has expired.
\<close>

theorem rateLimit_fixed_window_witness:
  "verdicts_for ''a'' ((''a'', 1000) # (''b'', 1500) # replicate 25 (''a'', 3000)) Map.empty =
     replicate 25 Next @ [Status429] \<and>
   rateLimit ''a'' 3001 [''a'' \<mapsto> \<lparr>count = 26, resetAt = 3000\<rparr>] =
     (Next, [''a'' \<mapsto> \<lparr>count = 1, resetAt = 5001\<rparr>])"
  using rateLimit_fixed_window [of Map.empty "''a''" 1000
      "(''b'', 1500) # replicate 25 (''a'', 3000)" "\<lparr>count = 26, resetAt = 3000\<rparr>" 3001]
    rateLimit_fixed_window [of "[''a'' \<mapsto> \<lparr>count = 26, resetAt = 3000\<rparr>]" "''a''" 0 "[]"
      "\<lparr>count = 26, resetAt = 3000\<rparr>" 3001]
  by (simp add: hits_of_def)

section \<open>Digest construction\<close>

lemma length_toBeBytes: "length (toBeBytes n v) = n"
  by (induction n arbitrary: v) auto

lemma byte_of_nat_mod: "(word_of_nat (v mod 256) :: byte) = word_of_nat v"
proof -
  have "(word_of_nat (v mod 2 ^ LENGTH(8)) :: byte) = word_of_nat v"
    by (simp only: word_of_nat_eq_iff take_bit_eq_mod mod_mod_trivial)
  then show ?thesis by simp
qed

text \<open>Byte \<open>i\<close> from the right of the padded big-endian form is \<open>v div 256 ^ i\<close>, cut to 8 bits.\<close>

lemma toBeBytes_map:
  "toBeBytes n v = map (\<lambda>i. word_of_nat (v div 256 ^ i)) (rev [0..<n])"
proof (induction n arbitrary: v)
  case 0
  show ?case by simp
next
  case (Suc n)
  have "rev [0..<Suc n] = rev (map Suc [0..<n]) @ [0]"
    by (simp only: upt_Suc_shift rev.simps)
  then have "map (\<lambda>i. word_of_nat (v div 256 ^ i) :: byte) (rev [0..<Suc n]) =
      map (\<lambda>i. word_of_nat (v div 256 ^ Suc i)) (rev [0..<n]) @ [word_of_nat v]"
    by (simp add: rev_map comp_def del: upt_Suc)
  moreover have "v div 256 ^ Suc i = v div 256 div 256 ^ i" for i
    by (simp add: div_mult2_eq)
  ultimately show ?case
    using Suc [of "v div 256"] by (simp add: byte_of_nat_mod del: upt_Suc power_Suc)
qed

text \<open>The library's integer encoding and the contract's encoding of a word agree.\<close>

lemma word_bytes_unat: "word_bytes n w = toBeBytes n (unat w)"
proof -
  have "(ucast (drop_bit (8 * i) w) :: byte) = word_of_nat (unat w div 256 ^ i)" for i
  proof -
    have "(ucast (drop_bit (8 * i) w) :: byte) = word_of_nat (unat (drop_bit (8 * i) w))"
      by simp
    also have "unat (drop_bit (8 * i) w) = drop_bit (8 * i) (unat w)"
      by (rule unat_drop_bit_eq)
    also have "drop_bit (8 * i) (unat w) = unat w div 2 ^ (8 * i)"
      by (rule drop_bit_eq_div)
    also have "(2::nat) ^ (8 * i) = 256 ^ i"
      by (simp add: power_mult)
    finally show ?thesis .
  qed
  then show ?thesis
    by (simp add: word_bytes_def toBeBytes_map)
qed

lemma pack_Uint_in_range:
  "0 \<le> v \<Longrightarrow> v < 2 ^ bits \<Longrightarrow> pack (Uint bits v) = Inr (toBeBytes (bits div 8) (nat v))"
  by simp

lemma pack_uint256: "pack (Uint 256 (uint (w :: uint256))) = Inr (word_bytes 32 w)"
proof -
  have "uint w < 2 ^ LENGTH(256)"
    by (rule uint_bounded)
  then have "uint w < 2 ^ 256"
    by (simp only: len_num1 len_bit0 mult_numeral_1_right numeral_times_numeral semiring_norm)
  moreover have "0 \<le> uint w" by simp
  moreover have "(256::nat) div 8 = 32" by simp
  ultimately show ?thesis
    using pack_Uint_in_range [of "uint w" 256] by (simp only: unat_eq_nat_uint word_bytes_unat)
qed

lemma pack_uint8: "pack (Uint 8 (uint (w :: byte))) = Inr [w]"
proof -
  have "uint w < 2 ^ LENGTH(8)"
    by (rule uint_bounded)
  then have "uint w < 2 ^ 8"
    by simp
  moreover have "0 \<le> uint w" by simp
  moreover have "(8::nat) div 8 = Suc 0" by simp
  moreover have "toBeBytes (Suc 0) (unat w) = [w]"
    by (simp add: byte_of_nat_mod)
  ultimately show ?thesis
    using pack_Uint_in_range [of "uint w" 8] by (simp only: unat_eq_nat_uint)
qed

lemma pack_address: "pack (Address a) = Inr (word_bytes 20 a)"
  by (simp add: word_bytes_unat)

lemma keccak256_word: "keccak256 K data = word_bytes 32 (K data)"
  by (simp add: keccak256_def word_bytes_unat)

lemma pack_bytes32: "pack (BytesN 32 (word_bytes 32 (h :: bytes32))) = Inr (word_bytes 32 h)"
  by (simp add: length_toBeBytes word_bytes_unat)

lemma pack_bytes12: "pack (BytesN 12 (word_bytes 12 (b :: bytes12))) = Inr (word_bytes 12 b)"
  by (simp add: length_toBeBytes word_bytes_unat)

lemma pack_kind: "pack (Uint 8 (ActionType_number k)) = Inr [ActionType_position k]"
  by (cases k) (simp_all add: byte_of_nat_mod)

lemmas pack_simps =
  pack_uint256 pack_uint8 pack_address pack_bytes32 pack_bytes12 pack_kind keccak256_word

lemma commonDomain_arena:
  "commonDomain K (uint chainid) this = Inr (word_bytes 32 (arena_commonDomain K chainid this))"
  by (simp add: commonDomain_def arena_commonDomain_def encodePacked_def pack_simps
      del: pack.simps)

lemma digestJoin_arena:
  "digestJoin K (uint chainid) this player (uint nonce) (uint deadline) =
     Inr (word_bytes 32 (arena_digestJoin K chainid this player nonce deadline))"
  by (simp add: digestJoin_def commonDomain_arena arena_digestJoin_def encodePacked_def
      pack_simps del: pack.simps ActionType_number.simps)

lemma digestMove_arena:
  "digestMove K (uint chainid) this player (uint dir) (uint nonce) (uint deadline) =
     Inr (word_bytes 32 (arena_digestMove K chainid this player dir nonce deadline))"
  by (simp add: digestMove_def commonDomain_arena arena_digestMove_def encodePacked_def
      pack_simps del: pack.simps ActionType_number.simps)

lemma digestSetName_arena:
  "digestSetName K (uint chainid) this player (word_bytes 12 newName) (uint nonce)
       (uint deadline) =
     Inr (word_bytes 32 (arena_digestSetName K chainid this player newName nonce deadline))"
  by (simp add: digestSetName_def commonDomain_arena arena_digestSetName_def encodePacked_def
      pack_simps del: pack.simps ActionType_number.simps)

text \<open>
  Claim C3. With the relayer configured for the contract's chain id and address, each of
  \<open>commonDomain\<close>, \<open>digestJoin\<close>, \<open>digestMove\<close> and \<open>digestSetName\<close> returns, for every
  player, nonce and deadline and every direction or name, exactly the 32 bytes of what the
  contract's \<open>_commonDomain\<close>, \<open>_digestJoin\<close>, \<open>_digestMove\<close> and \<open>_digestSetName\<close> compute. The
  domain is the hash of the 32-byte chain id followed by the 20-byte arena address, and a
  digest is the hash of the domain, the one-byte kind (0 set-name, 1 join, 2 move), the
  20-byte actor, the kind's own field (nothing, the one-byte direction, the 12-byte name),
  the 32-byte nonce and the 32-byte deadline, in this order.
\<close>

theorem digests_match_arena:
  "commonDomain K (uint chainid) this =
     Inr (word_bytes 32 (arena_commonDomain K chainid this)) \<and>
   digestJoin K (uint chainid) this player (uint nonce) (uint deadline) =
     Inr (word_bytes 32 (arena_digestJoin K chainid this player nonce deadline)) \<and>
   digestMove K (uint chainid) this player (uint dir) (uint nonce) (uint deadline) =
     Inr (word_bytes 32 (arena_digestMove K chainid this player dir nonce deadline)) \<and>
   digestSetName K (uint chainid) this player (word_bytes 12 newName) (uint nonce)
       (uint deadline) =
     Inr (word_bytes 32 (arena_digestSetName K chainid this player newName nonce deadline)) \<and>
   arena_commonDomain K chainid this = K (word_bytes 32 chainid @ word_bytes 20 this) \<and>
   arena_digestJoin K chainid this player nonce deadline =
     K (word_bytes 32 (arena_commonDomain K chainid this) @ [1] @ word_bytes 20 player @
        word_bytes 32 nonce @ word_bytes 32 deadline) \<and>
   arena_digestMove K chainid this player dir nonce deadline =
     K (word_bytes 32 (arena_commonDomain K chainid this) @ [2] @ word_bytes 20 player @
        [dir] @ word_bytes 32 nonce @ word_bytes 32 deadline) \<and>
   arena_digestSetName K chainid this player newName nonce deadline =
     K (word_bytes 32 (arena_commonDomain K chainid this) @ [0] @ word_bytes 20 player @
        word_bytes 12 newName @ word_bytes 32 nonce @ word_bytes 32 deadline)"
proof (intro conjI)
  show "commonDomain K (uint chainid) this =
      Inr (word_bytes 32 (arena_commonDomain K chainid this))"
    by (rule commonDomain_arena)
  show "digestJoin K (uint chainid) this player (uint nonce) (uint deadline) =
      Inr (word_bytes 32 (arena_digestJoin K chainid this player nonce deadline))"
    by (rule digestJoin_arena)
  show "digestMove K (uint chainid) this player (uint dir) (uint nonce) (uint deadline) =
      Inr (word_bytes 32 (arena_digestMove K chainid this player dir nonce deadline))"
    by (rule digestMove_arena)
  show "digestSetName K (uint chainid) this player (word_bytes 12 newName) (uint nonce)
        (uint deadline) =
      Inr (word_bytes 32 (arena_digestSetName K chainid this player newName nonce deadline))"
    by (rule digestSetName_arena)
  show "arena_commonDomain K chainid this = K (word_bytes 32 chainid @ word_bytes 20 this)"
    by (simp add: arena_commonDomain_def encodePacked_def)
  show "arena_digestJoin K chainid this player nonce deadline =
      K (word_bytes 32 (arena_commonDomain K chainid this) @ [1] @ word_bytes 20 player @
         word_bytes 32 nonce @ word_bytes 32 deadline)"
    by (simp add: arena_digestJoin_def encodePacked_def)
  show "arena_digestMove K chainid this player dir nonce deadline =
      K (word_bytes 32 (arena_commonDomain K chainid this) @ [2] @ word_bytes 20 player @
         [dir] @ word_bytes 32 nonce @ word_bytes 32 deadline)"
    by (simp add: arena_digestMove_def encodePacked_def)
  show "arena_digestSetName K chainid this player newName nonce deadline =
      K (word_bytes 32 (arena_commonDomain K chainid this) @ [0] @ word_bytes 20 player @
         word_bytes 12 newName @ word_bytes 32 nonce @ word_bytes 32 deadline)"
    by (simp add: arena_digestSetName_def encodePacked_def)
qed

section \<open>Signature verifier\<close>












section \<open>Error responses\<close>



section \<open>The queue: an invariant of every reachable state\<close>

lemma reaction_job_neq [simp]:
  "reaction_job out r \<noteq> ResolveThenableJob p q"
  "ResolveThenableJob p q \<noteq> reaction_job out r"
  by (cases out; cases r; simp)+

lemma RTJ_notin_reaction_jobs [simp]:
  "ResolveThenableJob p q \<notin> reaction_job out ` A"
  by auto

lemma RTJ_notin_fired [simp]: "ResolveThenableJob p q \<notin> fired s r"
  by (cases s) simp_all

lemma prev_of_eq_Tail [simp]: "prev_of j = Tail i \<longleftrightarrow> j = Suc i"
  by (cases j) auto

lemma Tail_eq_prev_of [simp]: "Tail i = prev_of j \<longleftrightarrow> j = Suc i"
  by (cases j) auto

lemma prev_of_eq_Initial [simp]: "prev_of j = Initial \<longleftrightarrow> j = 0"
  by (cases j) auto

lemma prev_of_neq [simp]:
  "prev_of j \<noteq> Ret i" "prev_of j \<noteq> Run i" "prev_of j \<noteq> Ext i" "prev_of j \<noteq> Wrap i"
  "Ret i \<noteq> prev_of j" "Run i \<noteq> prev_of j" "Ext i \<noteq> prev_of j" "Wrap i \<noteq> prev_of j"
  by (cases j; simp)+

lemma res_of_neq [simp]:
  "res_of w j \<noteq> Ret i" "res_of w j \<noteq> Run i" "res_of w j \<noteq> Tail i" "res_of w j \<noteq> Initial"
  "res_of w j \<noteq> prev_of i"
  "Ret i \<noteq> res_of w j" "Run i \<noteq> res_of w j" "Tail i \<noteq> res_of w j" "Initial \<noteq> res_of w j"
  "prev_of i \<noteq> res_of w j"
  by (simp_all add: res_of_def)

lemma res_of_eq [simp]:
  "res_of w j = Wrap i \<longleftrightarrow> j = i \<and> is_move (queue_log w ! j)"
  "res_of w j = Ext i \<longleftrightarrow> j = i \<and> \<not> is_move (queue_log w ! j)"
  "Wrap i = res_of w j \<longleftrightarrow> j = i \<and> is_move (queue_log w ! j)"
  "Ext i = res_of w j \<longleftrightarrow> j = i \<and> \<not> is_move (queue_log w ! j)"
  by (auto simp: res_of_def)

subsection \<open>Projections of the invariant\<close>

lemma inv_statesD:
  assumes "inv_states w" and "i < length (queue_log w)"
  shows "state_of w (Tail i) = Pending \<or> state_of w (Tail i) = Settled (Fulfilled Undefined)"
    and "state_of w (Tail i) \<noteq> Pending \<Longrightarrow> state_of w (Run i) \<noteq> Pending"
    and "state_of w (Run i) \<noteq> Pending \<Longrightarrow> i < length (calls w)"
    and "state_of w (Run i) \<noteq> Pending \<Longrightarrow> state_of w (Run i) = state_of w (res_of w i)"
    and "state_of w (Ret i) \<noteq> Pending \<Longrightarrow> state_of w (Ret i) = state_of w (Run i)"
    and "i < length (calls w) \<Longrightarrow> state_of w (prev_of i) \<noteq> Pending"
    and "i < length (calls w) \<Longrightarrow> is_move (queue_log w ! i) \<Longrightarrow>
           state_of w (Wrap i) \<noteq> Pending \<Longrightarrow> state_of w (Wrap i) = state_of w (Ext i)"
  using assms by (auto simp: inv_states_def entry_states_def)

lemma inv_statesI:
  assumes "state_of w Initial = Settled (Fulfilled Undefined)"
    and "\<And>i. i < length (queue_log w) \<Longrightarrow> entry_states w i"
  shows "inv_states w"
  using assms by (simp add: inv_states_def)

lemma inv_states_Initial: "inv_states w \<Longrightarrow> state_of w Initial = Settled (Fulfilled Undefined)"
  by (simp add: inv_states_def)

lemma inv_structD:
  assumes "inv_struct w"
  shows "length (calls w) \<le> length (queue_log w)"
    and "tail w = prev_of (length (queue_log w))"
    and "i < length (queue_log w) \<Longrightarrow> is_task (queue_log w ! i)"
    and "i < length (calls w) \<Longrightarrow> calls w ! i = task_of (queue_log w ! i)"
  using assms by (auto simp: inv_struct_def)

lemma inv_reactsD: "inv_reacts w \<Longrightarrow> reacts_of w p = expected_reactions w p"
  by (simp add: inv_reacts_def)

lemma invD:
  assumes "inv w"
  shows "inv_struct w" "inv_states w" "inv_reacts w" "inv_jobs w" "inv_table w"
  using assms by (simp_all add: inv_def)

text \<open>The predecessor's tail of a called entry has settled, so calls are contiguous.\<close>

lemma prev_settled_called:
  assumes T: "inv_states w" and i: "i < length (queue_log w)"
    and p: "state_of w (prev_of i) \<noteq> Pending"
  shows "i \<le> length (calls w)"
proof (cases i)
  case 0 then show ?thesis by simp
next
  case (Suc i')
  then have i': "i' < length (queue_log w)" using i by simp
  from p Suc have "state_of w (Tail i') \<noteq> Pending" by simp
  then have "state_of w (Run i') \<noteq> Pending" using inv_statesD(2) [OF T i'] by blast
  then have "i' < length (calls w)" using inv_statesD(3) [OF T i'] by blast
  then show ?thesis using Suc by simp
qed

lemma prev_pending_not_called:
  assumes S: "inv_struct w" and T: "inv_states w"
    and p: "state_of w (prev_of i) = Pending"
  shows "length (calls w) \<le> i"
proof (cases "i < length (queue_log w)")
  case True
  show ?thesis
  proof (rule ccontr)
    assume "\<not> length (calls w) \<le> i"
    then have "i < length (calls w)" by simp
    then show False using inv_statesD(6) [OF T True] p by simp
  qed
next
  case False
  then show ?thesis using inv_structD(1) [OF S] by simp
qed

subsection \<open>Jobs by kind\<close>

lemma kind_reaction_job [simp]:
  "kind (reaction_job out (starter w i)) = Some (Start, i)"
  "kind (reaction_job out (tailer i)) = Some (SetTail, i)"
  "kind (reaction_job out (follower (Ret i))) = Some (SettleRet, i)"
  "kind (reaction_job out (follower (Run i))) = Some (SettleRun, i)"
  "kind (reaction_job out (awaiter key (Wrap i))) = Some (Await, i)"
  by (cases out; simp add: starter_def tailer_def follower_def awaiter_def)+

lemma kind_start_jobs: "x \<in> start_jobs w i \<Longrightarrow> kind x = Some (Start, i)"
  by (cases "state_of w (prev_of i)") (auto simp: start_jobs_def split: if_splits)

lemma kind_tail_jobs: "x \<in> tail_jobs w i \<Longrightarrow> kind x = Some (SetTail, i)"
  by (cases "state_of w (Run i)") (auto simp: tail_jobs_def split: if_splits)

lemma kind_ret_jobs:
  "x \<in> follow_jobs w (Ret i) q \<Longrightarrow> kind x = Some (AdoptRet, i) \<or> kind x = Some (SettleRet, i)"
  by (cases "state_of w q") (auto simp: follow_jobs_def split: if_splits)

lemma kind_run_jobs:
  "x \<in> run_jobs w i \<Longrightarrow> kind x = Some (AdoptRun, i) \<or> kind x = Some (SettleRun, i)"
  by (cases "state_of w (res_of w i)") (auto simp: run_jobs_def follow_jobs_def split: if_splits)

lemma kind_await_jobs: "x \<in> await_jobs w i \<Longrightarrow> kind x = Some (Await, i)"
  by (cases "state_of w (Ext i)") (auto simp: await_jobs_def split: if_splits)

lemma entry_jobs_kind:
  "x \<in> entry_jobs w j \<longleftrightarrow>
     (kind x = Some (Start, j) \<and> x \<in> start_jobs w j) \<or>
     (kind x = Some (SetTail, j) \<and> x \<in> tail_jobs w j) \<or>
     ((kind x = Some (AdoptRet, j) \<or> kind x = Some (SettleRet, j)) \<and>
        x \<in> follow_jobs w (Ret j) (Run j)) \<or>
     ((kind x = Some (AdoptRun, j) \<or> kind x = Some (SettleRun, j)) \<and> x \<in> run_jobs w j) \<or>
     (kind x = Some (Await, j) \<and> x \<in> await_jobs w j)"
  using kind_start_jobs [of x w j] kind_tail_jobs [of x w j] kind_ret_jobs [of x w j "Run j"]
    kind_run_jobs [of x w j] kind_await_jobs [of x w j]
  by (auto simp: entry_jobs_def)

lemma entry_jobs_index: "x \<in> entry_jobs w j \<Longrightarrow> \<exists>k. kind x = Some (k, j)"
  by (auto simp: entry_jobs_kind)

subsection \<open>Re-establishing the description of the job queue\<close>

lemma inv_jobs_tickI:
  assumes J: "inv_jobs w" and m: "microtasks w = j0 # js"
    and m': "microtasks w' = js @ new" and n': "length (queue_log w') = length (queue_log w)"
    and pt: "\<And>j. j < length (queue_log w) \<Longrightarrow>
               entry_jobs w' j \<union> (if j = i then {j0} else {}) = entry_jobs w j \<union> N j"
    and gone: "\<And>j. j < length (queue_log w) \<Longrightarrow> j0 \<notin> entry_jobs w' j"
    and new: "set new = (\<Union>j < length (queue_log w). N j)" and dn: "distinct new"
    and fresh: "\<And>x j. x \<in> set new \<Longrightarrow> j < length (queue_log w) \<Longrightarrow> x \<notin> entry_jobs w j"
  shows "inv_jobs w'"
proof -
  let ?n = "length (queue_log w)"
  from J m have d: "distinct (j0 # js)"
    and s: "insert j0 (set js) = (\<Union>j < ?n. entry_jobs w j)"
    by (simp_all add: inv_jobs_def)
  have old: "\<exists>j < ?n. x \<in> entry_jobs w j" if "x \<in> insert j0 (set js)" for x
    using that s by blast
  have new_not_old: "x \<notin> insert j0 (set js)" if "x \<in> set new" for x
  proof
    assume "x \<in> insert j0 (set js)"
    then obtain j where "j < ?n" "x \<in> entry_jobs w j" using old by blast
    then show False using fresh [OF that] by blast
  qed
  have dist: "distinct (js @ new)" using d dn new_not_old by auto
  have "(\<Union>j < ?n. entry_jobs w' j) = set js \<union> set new"
  proof (intro set_eqI iffI)
    fix x assume "x \<in> (\<Union>j < ?n. entry_jobs w' j)"
    then obtain j where j: "j < ?n" and x: "x \<in> entry_jobs w' j" by blast
    then have "x \<in> entry_jobs w j \<union> N j" using pt [OF j] by blast
    then consider "x \<in> entry_jobs w j" | "x \<in> N j" by blast
    then show "x \<in> set js \<union> set new"
    proof cases
      case 1
      then have "x \<in> insert j0 (set js)" using s j by blast
      moreover have "x \<noteq> j0" using gone [OF j] x by blast
      ultimately show ?thesis by simp
    next
      case 2
      then show ?thesis using new j by blast
    qed
  next
    fix x assume "x \<in> set js \<union> set new"
    then consider "x \<in> set js" | "x \<in> set new" by blast
    then show "x \<in> (\<Union>j < ?n. entry_jobs w' j)"
    proof cases
      case 1
      then obtain j where j: "j < ?n" and x: "x \<in> entry_jobs w j" using old by blast
      have "x \<noteq> j0" using 1 d by auto
      moreover have "x \<in> entry_jobs w' j \<union> (if j = i then {j0} else {})"
        using pt [OF j] x by blast
      ultimately have "x \<in> entry_jobs w' j" by (auto split: if_splits)
      then show ?thesis using j by blast
    next
      case 2
      then obtain j where j: "j < ?n" and x: "x \<in> N j" using new by blast
      have "x \<noteq> j0" using new_not_old [OF 2] by auto
      moreover have "x \<in> entry_jobs w' j \<union> (if j = i then {j0} else {})"
        using pt [OF j] x by blast
      ultimately have "x \<in> entry_jobs w' j" by (auto split: if_splits)
      then show ?thesis using j by blast
    qed
  qed
  then show ?thesis using dist by (simp add: inv_jobs_def m' n')
qed

lemma inv_jobs_appendI:
  assumes J: "inv_jobs w"
    and m': "microtasks w' = microtasks w @ new"
    and n': "length (queue_log w') = length (queue_log w)"
    and pt: "\<And>j. j < length (queue_log w) \<Longrightarrow> entry_jobs w' j = entry_jobs w j \<union> N j"
    and new: "set new = (\<Union>j < length (queue_log w). N j)" and dn: "distinct new"
    and fresh: "\<And>x j. x \<in> set new \<Longrightarrow> j < length (queue_log w) \<Longrightarrow> x \<notin> entry_jobs w j"
  shows "inv_jobs w'"
proof -
  let ?n = "length (queue_log w)"
  from J have d: "distinct (microtasks w)"
    and s: "set (microtasks w) = (\<Union>j < ?n. entry_jobs w j)"
    by (simp_all add: inv_jobs_def)
  have "x \<notin> set (microtasks w)" if "x \<in> set new" for x
    using fresh [OF that] s by blast
  then have dist: "distinct (microtasks w @ new)" using d dn by auto
  have "(\<Union>j < ?n. entry_jobs w' j) = set (microtasks w) \<union> set new"
  proof (intro set_eqI iffI)
    fix x assume "x \<in> (\<Union>j < ?n. entry_jobs w' j)"
    then obtain j where j: "j < ?n" and x: "x \<in> entry_jobs w' j" by blast
    then have "x \<in> entry_jobs w j \<union> N j" using pt [OF j] by blast
    then show "x \<in> set (microtasks w) \<union> set new" using s new j by blast
  next
    fix x assume "x \<in> set (microtasks w) \<union> set new"
    then obtain j where j: "j < ?n" and x: "x \<in> entry_jobs w j \<union> N j"
      using s new by blast
    then have "x \<in> entry_jobs w' j" using pt [OF j] by blast
    then show "x \<in> (\<Union>j < ?n. entry_jobs w' j)" using j by blast
  qed
  then show ?thesis using dist by (simp add: inv_jobs_def m' n')
qed

lemma head_job_entry:
  assumes "inv_jobs w" and "microtasks w = j0 # js"
  obtains i where "i < length (queue_log w)" and "j0 \<in> entry_jobs w i"
  using assms by (auto simp: inv_jobs_def)

lemma adopting_tl:
  assumes "inv_jobs w" and "microtasks w = j0 # js"
  shows "(ResolveThenableJob p q \<in> set js) = (adopting w p q \<and> j0 \<noteq> ResolveThenableJob p q)"
  using assms by (auto simp: adopting_def inv_jobs_def)

lemma settle_pending:
  "state_of w p = Pending \<Longrightarrow>
   settle p out w =
     w\<lparr>heap := (heap w)(p := \<lparr>p_state = Settled out, p_reactions = []\<rparr>),
       microtasks := microtasks w @ map (reaction_job out) (reacts_of w p)\<rparr>"
  by (simp add: settle_def state_of_def reacts_of_def)

lemma settle_settled: "state_of w p \<noteq> Pending \<Longrightarrow> settle p out w = w"
  by (cases "state_of w p") (simp_all add: settle_def state_of_def)

lemma inv_initial: "inv initial"
  unfolding inv_def
proof (intro conjI)
  show "inv_struct initial" by (simp add: inv_struct_def initial_def)
  show "inv_states initial" by (simp add: inv_states_def initial_def state_of_def)
  show "inv_reacts initial"
    unfolding inv_reacts_def
  proof
    fix p show "reacts_of initial p = expected_reactions initial p"
      by (cases p) (simp_all add: initial_def reacts_of_def)
  qed
  show "inv_jobs initial" by (simp add: inv_jobs_def initial_def)
  show "inv_table initial" by (simp add: inv_table_def initial_def)
qed

lemma tick_tail:
  assumes I: "inv w" and m: "microtasks w = j0 # js" and i: "i < length (queue_log w)"
    and j0: "j0 \<in> tail_jobs w i"
  shows "inv (run_job j0 (w\<lparr>microtasks := js\<rparr>))"
proof -
  note S = invD(1) [OF I] and T = invD(2) [OF I] and R = invD(3) [OF I]
    and J = invD(4) [OF I] and M = invD(5) [OF I]
  from j0 obtain out where pt: "state_of w (Tail i) = Pending"
    and pr: "state_of w (Run i) = Settled out" and j0: "j0 = reaction_job out (tailer i)"
    by (cases "state_of w (Run i)") (auto simp: tail_jobs_def split: if_splits)
  have rT: "reacts_of w (Tail i) = (if Suc i < length (queue_log w) then [starter w (Suc i)] else [])"
    using inv_reactsD [OF R, of "Tail i"] pt by simp
  define new where "new = map (reaction_job (Fulfilled Undefined)) (reacts_of w (Tail i))"
  define w' where "w' = run_job j0 (w\<lparr>microtasks := js\<rparr>)"
  have eq: "w' = w\<lparr>heap := (heap w)(Tail i := \<lparr>p_state = Settled (Fulfilled Undefined), p_reactions = []\<rparr>),
       microtasks := js @ new\<rparr>"
    using pt unfolding w'_def new_def
    by (cases out) (simp_all add: j0 tailer_def settle_def state_of_def reacts_of_def)
  have st: "state_of w' p = (if p = Tail i then Settled (Fulfilled Undefined) else state_of w p)" for p
    by (simp add: eq state_of_def)
  have re: "reacts_of w' p = (if p = Tail i then [] else reacts_of w p)" for p
    by (simp add: eq reacts_of_def)
  have mt: "microtasks w' = js @ new" by (simp add: eq)
  have ql: "queue_log w' = queue_log w" and cl: "calls w' = calls w"
    and mf: "moveInFlight w' = moveInFlight w" and tl: "tail w' = tail w"
    by (simp_all add: eq)
  have new: "new = (if Suc i < length (queue_log w) then [reaction_job (Fulfilled Undefined) (starter w (Suc i))] else [])"
    by (simp add: new_def rT)
  have ad: "adopting w' p q = adopting w p q" for p q
    using adopting_tl [OF J m, of p q] by (auto simp: adopting_def mt new j0)
  have starter': "starter w' j = starter w j" for j by (simp add: starter_def ql)
  have res': "res_of w' j = res_of w j" for j by (simp add: res_of_def ql)
  have k: "length (calls w) \<le> Suc i"
    using prev_pending_not_called [OF S T, of "Suc i"] pt by simp
  have S': "inv_struct w'" using S by (simp add: inv_struct_def ql cl tl)
  have T': "inv_states w'"
  proof (rule inv_statesI)
    show "state_of w' Initial = Settled (Fulfilled Undefined)"
      using inv_states_Initial [OF T] by (simp add: st)
  next
    fix j assume "j < length (queue_log w')"
    then have j: "j < length (queue_log w)" by (simp add: ql)
    note D = inv_statesD [OF T j]
    show "entry_states w' j"
      using D pr by (auto simp: entry_states_def st res' cl ql)
  qed
  have R': "inv_reacts w'"
    unfolding inv_reacts_def
  proof
    fix p
    show "reacts_of w' p = expected_reactions w' p"
      using inv_reactsD [OF R, of p]
      by (cases p) (auto simp: re st follow_reacts_def ad starter' ql cl)
  qed
  have M': "inv_table w'" using M i pt
    by (simp add: inv_table_def live_move_def st ql cl mf)
  have J': "inv_jobs w'"
  proof (rule inv_jobs_tickI [OF J m mt, where i = i and N = "\<lambda>j. if j = Suc i then set new else {}"])
    show "length (queue_log w') = length (queue_log w)" by (simp add: ql)
    show "distinct new" by (simp add: new)
    show "set new = (\<Union>j<length (queue_log w). if j = Suc i then set new else {})"
      by (auto simp: new)
  next
    fix j assume j: "j < length (queue_log w)"
    have 1: "start_jobs w' j = start_jobs w j \<union> (if j = Suc i then set new else {})"
      using pt k j by (auto simp: start_jobs_def st starter' new cl)
    have 2: "tail_jobs w' j \<union> (if j = i then {j0} else {}) = tail_jobs w j"
      using pt pr by (auto simp: tail_jobs_def st j0)
    have 3: "follow_jobs w' (Ret j) (Run j) = follow_jobs w (Ret j) (Run j)"
      by (simp add: follow_jobs_def st ad)
    have 4: "run_jobs w' j = run_jobs w j"
      by (simp add: run_jobs_def follow_jobs_def st ad res' cl)
    have 5: "await_jobs w' j = await_jobs w j"
      by (simp add: await_jobs_def st cl ql)
    show "entry_jobs w' j \<union> (if j = i then {j0} else {}) =
        entry_jobs w j \<union> (if j = Suc i then set new else {})"
      unfolding entry_jobs_def 1 3 4 5 using 2 by blast
  next
    fix j assume j: "j < length (queue_log w)"
    show "j0 \<notin> entry_jobs w' j"
      by (simp add: entry_jobs_kind j0 tail_jobs_def st)
  next
    fix x j assume "x \<in> set new" and j: "j < length (queue_log w)"
    then have x: "x = reaction_job (Fulfilled Undefined) (starter w (Suc i))"
      by (auto simp: new split: if_splits)
    show "x \<notin> entry_jobs w j"
      using pt by (auto simp: entry_jobs_kind x start_jobs_def)
  qed
  show ?thesis
    unfolding w'_def [symmetric] inv_def using S' T' R' J' M' by simp
qed

lemma follow_jobs_cases:
  assumes "x \<in> follow_jobs w p q"
  obtains (adopt) "x = ResolveThenableJob p q" "state_of w p = Pending" "adopting w p q"
  | (settle) out where "x = reaction_job out (follower p)" "state_of w p = Pending"
      "\<not> adopting w p q" "state_of w q = Settled out"
  using assms by (cases "state_of w q") (auto simp: follow_jobs_def split: if_splits)

lemma run_job_follower:
  "run_job (reaction_job out (follower p)) w = settle p out w"
  by (cases out) (simp_all add: follower_def)

lemma tick_settle_ret:
  assumes I: "inv w" and m: "microtasks w = j0 # js" and i: "i < length (queue_log w)"
    and j0: "j0 = reaction_job out (follower (Ret i))"
    and pp: "state_of w (Ret i) = Pending" and na: "\<not> adopting w (Ret i) (Run i)"
    and pr: "state_of w (Run i) = Settled out"
  shows "inv (run_job j0 (w\<lparr>microtasks := js\<rparr>))"
proof -
  note S = invD(1) [OF I] and T = invD(2) [OF I] and R = invD(3) [OF I]
    and J = invD(4) [OF I] and M = invD(5) [OF I]
  have rT: "reacts_of w (Ret i) = []"
    using inv_reactsD [OF R, of "Ret i"] by simp
  define w' where "w' = run_job j0 (w\<lparr>microtasks := js\<rparr>)"
  have eq: "w' = w\<lparr>heap := (heap w)(Ret i := \<lparr>p_state = Settled out, p_reactions = []\<rparr>),
       microtasks := js\<rparr>"
    using pp rT unfolding w'_def j0 run_job_follower
    by (simp add: settle_def state_of_def reacts_of_def)
  have st: "state_of w' p = (if p = Ret i then Settled out else state_of w p)" for p
    by (simp add: eq state_of_def)
  have re: "reacts_of w' p = (if p = Ret i then [] else reacts_of w p)" for p
    by (simp add: eq reacts_of_def)
  have mt: "microtasks w' = js @ []" by (simp add: eq)
  have ql: "queue_log w' = queue_log w" and cl: "calls w' = calls w"
    and mf: "moveInFlight w' = moveInFlight w" and tl: "tail w' = tail w"
    by (simp_all add: eq)
  have ad: "adopting w' p q = adopting w p q" for p q
    using adopting_tl [OF J m, of p q] by (auto simp: adopting_def mt j0)
  have starter': "starter w' j = starter w j" for j by (simp add: starter_def ql)
  have res': "res_of w' j = res_of w j" for j by (simp add: res_of_def ql)
  have S': "inv_struct w'" using S by (simp add: inv_struct_def ql cl tl)
  have T': "inv_states w'"
  proof (rule inv_statesI)
    show "state_of w' Initial = Settled (Fulfilled Undefined)"
      using inv_states_Initial [OF T] by (simp add: st)
  next
    fix j assume "j < length (queue_log w')"
    then have j: "j < length (queue_log w)" by (simp add: ql)
    note D = inv_statesD [OF T j]
    show "entry_states w' j"
      using D pr by (auto simp: entry_states_def st res' cl ql)
  qed
  have R': "inv_reacts w'"
    unfolding inv_reacts_def
  proof
    fix p
    show "reacts_of w' p = expected_reactions w' p"
      using inv_reactsD [OF R, of p] pr
      by (cases p) (auto simp: re st follow_reacts_def ad starter' ql cl)
  qed
  have M': "inv_table w'" using M
    by (simp add: inv_table_def live_move_def st ql cl mf)
  have J': "inv_jobs w'"
  proof (rule inv_jobs_tickI [OF J m mt, where i = i and N = "\<lambda>j. {}"])
    show "length (queue_log w') = length (queue_log w)" by (simp add: ql)
    show "distinct ([]::job list)" by simp
    show "set [] = (\<Union>j<length (queue_log w). {})" by simp
  next
    fix j assume j: "j < length (queue_log w)"
    have 1: "start_jobs w' j = start_jobs w j"
      by (simp add: start_jobs_def st starter' cl)
    have 2: "tail_jobs w' j = tail_jobs w j"
      by (simp add: tail_jobs_def st)
    have 3: "follow_jobs w' (Ret j) (Run j) \<union> (if j = i then {j0} else {}) = follow_jobs w (Ret j) (Run j)"
      using pp na pr by (auto simp: follow_jobs_def st ad j0)
    have 4: "run_jobs w' j = run_jobs w j"
      by (simp add: run_jobs_def follow_jobs_def st ad res' cl)
    have 5: "await_jobs w' j = await_jobs w j"
      by (simp add: await_jobs_def st cl ql)
    show "entry_jobs w' j \<union> (if j = i then {j0} else {}) = entry_jobs w j \<union> {}"
      unfolding entry_jobs_def 1 2 4 5 using 3 by blast
  next
    fix j assume j: "j < length (queue_log w)"
    show "j0 \<notin> entry_jobs w' j"
      by (auto simp: entry_jobs_kind j0 follow_jobs_def st)
  next
    fix x :: job and j assume "x \<in> set []"
    then show "x \<notin> entry_jobs w j" by simp
  qed
  show ?thesis
    unfolding w'_def [symmetric] inv_def using S' T' R' J' M' by simp
qed

lemma tick_adopt_ret:
  assumes I: "inv w" and m: "microtasks w = j0 # js" and i: "i < length (queue_log w)"
    and j0: "j0 = ResolveThenableJob (Ret i) (Run i)"
    and pp: "state_of w (Ret i) = Pending"
  shows "inv (run_job j0 (w\<lparr>microtasks := js\<rparr>))"
proof -
  note S = invD(1) [OF I] and T = invD(2) [OF I] and R = invD(3) [OF I]
    and J = invD(4) [OF I] and M = invD(5) [OF I]
  have a: "adopting w (Ret i) (Run i)" using m by (simp add: adopting_def j0)
  define new where "new = (case state_of w (Run i) of Pending \<Rightarrow> [] | Settled out \<Rightarrow> [reaction_job out (follower (Ret i))])"
  define w' where "w' = run_job j0 (w\<lparr>microtasks := js\<rparr>)"
  have st: "state_of w' p = state_of w p" for p
    unfolding w'_def j0 by (cases "state_of w (Run i)") (auto simp: perform_then_def state_of_def schedule_def)
  have re: "reacts_of w' p = (if p = Run i \<and> state_of w (Run i) = Pending then reacts_of w p @ [follower (Ret i)] else reacts_of w p)" for p
    unfolding w'_def j0 by (cases "state_of w (Run i)") (auto simp: perform_then_def state_of_def reacts_of_def schedule_def follower_def)
  have mt: "microtasks w' = js @ new"
    unfolding w'_def j0 new_def by (cases "state_of w (Run i)") (auto simp: perform_then_def state_of_def schedule_def follower_def)
  have ql: "queue_log w' = queue_log w" and cl: "calls w' = calls w"
    and mf: "moveInFlight w' = moveInFlight w" and tl: "tail w' = tail w"
    unfolding w'_def j0 by (cases "state_of w (Run i)"; simp add: perform_then_def state_of_def schedule_def)+
  have new: "set new = fired (state_of w (Run i)) (follower (Ret i))"
    by (cases "state_of w (Run i)") (simp_all add: new_def)
  have ad: "adopting w' p q = (adopting w p q \<and> \<not> (p = Ret i \<and> q = Run i))" for p q
    using adopting_tl [OF J m, of p q] by (cases "state_of w (Run i)") (auto simp: adopting_def mt j0 new_def)
  have starter': "starter w' j = starter w j" for j by (simp add: starter_def ql)
  have res': "res_of w' j = res_of w j" for j by (simp add: res_of_def ql)
  have S': "inv_struct w'" using S by (simp add: inv_struct_def ql cl tl)
  have T': "inv_states w'"
  proof (rule inv_statesI)
    show "state_of w' Initial = Settled (Fulfilled Undefined)"
      using inv_states_Initial [OF T] by (simp add: st)
  next
    fix j assume "j < length (queue_log w')"
    then have j: "j < length (queue_log w)" by (simp add: ql)
    note D = inv_statesD [OF T j]
    show "entry_states w' j"
      using D by (auto simp: entry_states_def st res' cl ql)
  qed
  have R': "inv_reacts w'"
    unfolding inv_reacts_def
  proof
    fix p
    show "reacts_of w' p = expected_reactions w' p"
    proof (cases p)
      case (Run j)
      show ?thesis
      proof (cases "j = i")
        case True
        then show ?thesis
          using inv_reactsD [OF R, of "Run i"] pp a i
          by (simp add: Run re st follow_reacts_def ad ql)
      next
        case False
        then show ?thesis
          using inv_reactsD [OF R, of "Run j"]
          by (simp add: Run re st follow_reacts_def ad ql)
      qed
    qed (use inv_reactsD [OF R, of p] in \<open>simp_all add: re st follow_reacts_def ad starter' ql cl\<close>)
  qed
  have M': "inv_table w'" using M
    by (simp add: inv_table_def live_move_def st ql cl mf)
  have J': "inv_jobs w'"
  proof (rule inv_jobs_tickI [OF J m mt, where i = i and N = "\<lambda>j. if j = i then set new else {}"])
    show "length (queue_log w') = length (queue_log w)" by (simp add: ql)
    show "distinct new" by (cases "state_of w (Run i)") (simp_all add: new_def)
    show "set new = (\<Union>j<length (queue_log w). if j = i then set new else {})"
      using i by auto
  next
    fix j assume j: "j < length (queue_log w)"
    have 1: "start_jobs w' j = start_jobs w j"
      by (simp add: start_jobs_def st starter' cl)
    have 2: "tail_jobs w' j = tail_jobs w j"
      by (simp add: tail_jobs_def st)
    have 3: "follow_jobs w' (Ret j) (Run j) \<union> (if j = i then {j0} else {}) =
        follow_jobs w (Ret j) (Run j) \<union> (if j = i then set new else {})"
      using pp a by (auto simp: follow_jobs_def st ad j0 new)
    have 4: "run_jobs w' j = run_jobs w j"
      by (simp add: run_jobs_def follow_jobs_def st ad res' cl)
    have 5: "await_jobs w' j = await_jobs w j"
      by (simp add: await_jobs_def st cl ql)
    show "entry_jobs w' j \<union> (if j = i then {j0} else {}) =
        entry_jobs w j \<union> (if j = i then set new else {})"
      unfolding entry_jobs_def 1 2 4 5 using 3 by blast
  next
    fix j assume j: "j < length (queue_log w)"
    show "j0 \<notin> entry_jobs w' j"
      by (auto simp: entry_jobs_kind j0 follow_jobs_def st ad)
  next
    fix x j assume "x \<in> set new" and j: "j < length (queue_log w)"
    then obtain out where x: "x = reaction_job out (follower (Ret i))"
      by (cases "state_of w (Run i)") (auto simp: new_def)
    show "x \<notin> entry_jobs w j"
      using a by (auto simp: entry_jobs_kind x follow_jobs_def)
  qed
  show ?thesis
    unfolding w'_def [symmetric] inv_def using S' T' R' J' M' by simp
qed

lemma tick_adopt_run:
  assumes I: "inv w" and m: "microtasks w = j0 # js" and i: "i < length (queue_log w)"
    and j0: "j0 = ResolveThenableJob (Run i) (res_of w i)"
    and ik: "i < length (calls w)"
    and pp: "state_of w (Run i) = Pending"
  shows "inv (run_job j0 (w\<lparr>microtasks := js\<rparr>))"
proof -
  note S = invD(1) [OF I] and T = invD(2) [OF I] and R = invD(3) [OF I]
    and J = invD(4) [OF I] and M = invD(5) [OF I]
  let ?q = "res_of w i"
  have a: "adopting w (Run i) ?q" using m by (simp add: adopting_def j0)
  define new where "new = (case state_of w ?q of Pending \<Rightarrow> [] | Settled out \<Rightarrow> [reaction_job out (follower (Run i))])"
  define w' where "w' = run_job j0 (w\<lparr>microtasks := js\<rparr>)"
  have st: "state_of w' p = state_of w p" for p
    unfolding w'_def j0 by (cases "state_of w ?q") (auto simp: perform_then_def state_of_def schedule_def)
  have re: "reacts_of w' p = (if p = ?q \<and> state_of w ?q = Pending then reacts_of w p @ [follower (Run i)] else reacts_of w p)" for p
    unfolding w'_def j0 by (cases "state_of w ?q") (auto simp: perform_then_def state_of_def reacts_of_def schedule_def follower_def)
  have mt: "microtasks w' = js @ new"
    unfolding w'_def j0 new_def by (cases "state_of w ?q") (auto simp: perform_then_def state_of_def schedule_def follower_def)
  have ql: "queue_log w' = queue_log w" and cl: "calls w' = calls w"
    and mf: "moveInFlight w' = moveInFlight w" and tl: "tail w' = tail w"
    unfolding w'_def j0 by (cases "state_of w ?q"; simp add: perform_then_def state_of_def schedule_def)+
  have new: "set new = fired (state_of w ?q) (follower (Run i))"
    by (cases "state_of w ?q") (simp_all add: new_def)
  have ad: "adopting w' p q = (adopting w p q \<and> \<not> (p = Run i \<and> q = ?q))" for p q
    using adopting_tl [OF J m, of p q] by (cases "state_of w ?q") (auto simp: adopting_def mt j0 new_def)
  have starter': "starter w' j = starter w j" for j by (simp add: starter_def ql)
  have res': "res_of w' j = res_of w j" for j by (simp add: res_of_def ql)
  have S': "inv_struct w'" using S by (simp add: inv_struct_def ql cl tl)
  have T': "inv_states w'"
  proof (rule inv_statesI)
    show "state_of w' Initial = Settled (Fulfilled Undefined)"
      using inv_states_Initial [OF T] by (simp add: st)
  next
    fix j assume "j < length (queue_log w')"
    then have j: "j < length (queue_log w)" by (simp add: ql)
    note D = inv_statesD [OF T j]
    show "entry_states w' j"
      using D by (auto simp: entry_states_def st res' cl ql)
  qed
  have R': "inv_reacts w'"
    unfolding inv_reacts_def
  proof
    fix p
    show "reacts_of w' p = expected_reactions w' p"
    proof (cases p)
      case (Ext j)
      show ?thesis
      proof (cases "j = i")
        case True
        then show ?thesis
          using inv_reactsD [OF R, of "Ext i"] pp a ik
          by (cases "is_move (queue_log w ! i)")
            (auto simp add: Ext re st follow_reacts_def ad ql cl res_of_def)
      next
        case False
        then show ?thesis
          using inv_reactsD [OF R, of "Ext j"]
          by (auto simp add: Ext re st follow_reacts_def ad ql cl res_of_def)
      qed
    next
      case (Wrap j)
      show ?thesis
      proof (cases "j = i")
        case True
        then show ?thesis
          using inv_reactsD [OF R, of "Wrap i"] pp a ik
          by (cases "is_move (queue_log w ! i)")
            (auto simp add: Wrap re st follow_reacts_def ad ql cl res_of_def)
      next
        case False
        then show ?thesis
          using inv_reactsD [OF R, of "Wrap j"]
          by (auto simp add: Wrap re st follow_reacts_def ad ql cl res_of_def)
      qed
    qed (use inv_reactsD [OF R, of p] in \<open>simp_all add: re st follow_reacts_def ad starter' ql cl\<close>)
  qed
  have M': "inv_table w'" using M
    by (simp add: inv_table_def live_move_def st ql cl mf)
  have J': "inv_jobs w'"
  proof (rule inv_jobs_tickI [OF J m mt, where i = i and N = "\<lambda>j. if j = i then set new else {}"])
    show "length (queue_log w') = length (queue_log w)" by (simp add: ql)
    show "distinct new" by (cases "state_of w ?q") (simp_all add: new_def)
    show "set new = (\<Union>j<length (queue_log w). if j = i then set new else {})"
      using i by auto
  next
    fix j assume j: "j < length (queue_log w)"
    have 1: "start_jobs w' j = start_jobs w j"
      by (simp add: start_jobs_def st starter' cl)
    have 2: "tail_jobs w' j = tail_jobs w j"
      by (simp add: tail_jobs_def st)
    have 3: "follow_jobs w' (Ret j) (Run j) = follow_jobs w (Ret j) (Run j)"
      by (simp add: follow_jobs_def st ad)
    have 4: "run_jobs w' j \<union> (if j = i then {j0} else {}) =
        run_jobs w j \<union> (if j = i then set new else {})"
      using pp a ik by (auto simp: run_jobs_def follow_jobs_def st ad j0 new res' cl)
    have 5: "await_jobs w' j = await_jobs w j"
      by (simp add: await_jobs_def st cl ql)
    show "entry_jobs w' j \<union> (if j = i then {j0} else {}) =
        entry_jobs w j \<union> (if j = i then set new else {})"
      unfolding entry_jobs_def 1 2 3 5 using 4 by blast
  next
    fix j assume j: "j < length (queue_log w)"
    show "j0 \<notin> entry_jobs w' j"
      by (auto simp: entry_jobs_kind j0 run_jobs_def follow_jobs_def st ad res')
  next
    fix x j assume "x \<in> set new" and j: "j < length (queue_log w)"
    then obtain out where x: "x = reaction_job out (follower (Run i))"
      by (cases "state_of w ?q") (auto simp: new_def)
    show "x \<notin> entry_jobs w j"
      using a by (auto simp: entry_jobs_kind x run_jobs_def follow_jobs_def)
  qed
  show ?thesis
    unfolding w'_def [symmetric] inv_def using S' T' R' J' M' by simp
qed

lemma tick_settle_run:
  assumes I: "inv w" and m: "microtasks w = j0 # js" and i: "i < length (queue_log w)"
    and j0: "j0 = reaction_job out (follower (Run i))"
    and ik: "i < length (calls w)"
    and pp: "state_of w (Run i) = Pending" and na: "\<not> adopting w (Run i) (res_of w i)"
    and pr: "state_of w (res_of w i) = Settled out"
  shows "inv (run_job j0 (w\<lparr>microtasks := js\<rparr>))"
proof -
  note S = invD(1) [OF I] and T = invD(2) [OF I] and R = invD(3) [OF I]
    and J = invD(4) [OF I] and M = invD(5) [OF I]
  have rT: "reacts_of w (Run i) = tailer i # follow_reacts w (Ret i) (Run i)"
    using inv_reactsD [OF R, of "Run i"] pp i by simp
  have ptl: "state_of w (Tail i) = Pending"
    using inv_statesD(2) [OF T i] pp by auto
  have pret: "state_of w (Ret i) = Pending"
    using inv_statesD(5) [OF T i] pp by auto
  define new where "new = map (reaction_job out) (tailer i # follow_reacts w (Ret i) (Run i))"
  define w' where "w' = run_job j0 (w\<lparr>microtasks := js\<rparr>)"
  have eq: "w' = w\<lparr>heap := (heap w)(Run i := \<lparr>p_state = Settled out, p_reactions = []\<rparr>),
       microtasks := js @ new\<rparr>"
    using pp rT unfolding w'_def j0 run_job_follower new_def
    by (simp add: settle_def state_of_def reacts_of_def)
  have st: "state_of w' p = (if p = Run i then Settled out else state_of w p)" for p
    by (simp add: eq state_of_def)
  have re: "reacts_of w' p = (if p = Run i then [] else reacts_of w p)" for p
    by (simp add: eq reacts_of_def)
  have mt: "microtasks w' = js @ new" by (simp add: eq)
  have ql: "queue_log w' = queue_log w" and cl: "calls w' = calls w"
    and mf: "moveInFlight w' = moveInFlight w" and tl: "tail w' = tail w"
    by (simp_all add: eq)
  have ad: "adopting w' p q = adopting w p q" for p q
    using adopting_tl [OF J m, of p q] by (auto simp: adopting_def mt j0 new_def)
  have starter': "starter w' j = starter w j" for j by (simp add: starter_def ql)
  have res': "res_of w' j = res_of w j" for j by (simp add: res_of_def ql)
  have S': "inv_struct w'" using S by (simp add: inv_struct_def ql cl tl)
  have T': "inv_states w'"
  proof (rule inv_statesI)
    show "state_of w' Initial = Settled (Fulfilled Undefined)"
      using inv_states_Initial [OF T] by (simp add: st)
  next
    fix j assume "j < length (queue_log w')"
    then have j: "j < length (queue_log w)" by (simp add: ql)
    note D = inv_statesD [OF T j]
    show "entry_states w' j"
      using D pr ik pret by (auto simp: entry_states_def st res' cl ql)
  qed
  have R': "inv_reacts w'"
    unfolding inv_reacts_def
  proof
    fix p
    show "reacts_of w' p = expected_reactions w' p"
      using inv_reactsD [OF R, of p] pp pr
      by (cases p; cases "is_move (queue_log w ! i)")
        (auto simp: re st follow_reacts_def ad starter' ql cl res_of_def)
  qed
  have M': "inv_table w'" using M
    by (simp add: inv_table_def live_move_def st ql cl mf)
  have J': "inv_jobs w'"
  proof (rule inv_jobs_tickI [OF J m mt, where i = i and N = "\<lambda>j. if j = i then set new else {}"])
    show "length (queue_log w') = length (queue_log w)" by (simp add: ql)
    show "distinct new" by (cases out) (auto simp: new_def follow_reacts_def tailer_def follower_def)
    show "set new = (\<Union>j<length (queue_log w). if j = i then set new else {})"
      using i by auto
  next
    fix j assume j: "j < length (queue_log w)"
    have 1: "start_jobs w' j = start_jobs w j"
      by (simp add: start_jobs_def st starter' cl)
    have 2: "tail_jobs w' j = tail_jobs w j \<union> (if j = i then {reaction_job out (tailer i)} else {})"
      using pp ptl by (auto simp: tail_jobs_def st)
    have 3: "follow_jobs w' (Ret j) (Run j) = follow_jobs w (Ret j) (Run j) \<union>
        (if j = i then set (map (reaction_job out) (follow_reacts w (Ret i) (Run i))) else {})"
      using pp pret by (auto simp: follow_jobs_def st ad follow_reacts_def)
    have 4: "run_jobs w' j \<union> (if j = i then {j0} else {}) = run_jobs w j"
      using pp na pr ik by (auto simp: run_jobs_def follow_jobs_def st ad j0 res' cl)
    have 5: "await_jobs w' j = await_jobs w j"
      by (simp add: await_jobs_def st cl ql)
    show "entry_jobs w' j \<union> (if j = i then {j0} else {}) =
        entry_jobs w j \<union> (if j = i then set new else {})"
      unfolding entry_jobs_def 1 2 3 5 new_def using 4 by auto
  next
    fix j assume j: "j < length (queue_log w)"
    show "j0 \<notin> entry_jobs w' j"
      by (auto simp: entry_jobs_kind j0 run_jobs_def follow_jobs_def st)
  next
    fix x j assume "x \<in> set new" and j: "j < length (queue_log w)"
    then consider "x = reaction_job out (tailer i)"
      | "x = reaction_job out (follower (Ret i))"
      by (auto simp: new_def follow_reacts_def split: if_splits)
    then show "x \<notin> entry_jobs w j"
      using pp by cases (auto simp: entry_jobs_kind tail_jobs_def follow_jobs_def)
  qed
  show ?thesis
    unfolding w'_def [symmetric] inv_def using S' T' R' J' M' by simp
qed

lemma run_job_awaiter:
  "run_job (reaction_job out (awaiter key W)) w =
     settle W out (w\<lparr>moveInFlight := (moveInFlight w)(key := None)\<rparr>)"
  by (cases out) (simp_all add: awaiter_def)

lemma tick_await:
  assumes I: "inv w" and m: "microtasks w = j0 # js" and i: "i < length (queue_log w)"
    and j0: "j0 = reaction_job out (awaiter (key_of (queue_log w ! i)) (Wrap i))"
    and ik: "i < length (calls w)" and mv: "is_move (queue_log w ! i)"
    and pp: "state_of w (Wrap i) = Pending"
    and pr: "state_of w (Ext i) = Settled out"
  shows "inv (run_job j0 (w\<lparr>microtasks := js\<rparr>))"
proof -
  note S = invD(1) [OF I] and T = invD(2) [OF I] and R = invD(3) [OF I]
    and J = invD(4) [OF I] and M = invD(5) [OF I]
  let ?key = "key_of (queue_log w ! i)"
  have rT: "reacts_of w (Wrap i) = follow_reacts w (Run i) (Wrap i)"
    using inv_reactsD [OF R, of "Wrap i"] ik mv by simp
  have res: "res_of w i = Wrap i" using mv by (simp add: res_of_def)
  have prun: "state_of w (Run i) = Pending"
    using inv_statesD(4) [OF T i] pp res by auto
  define new where "new = map (reaction_job out) (follow_reacts w (Run i) (Wrap i))"
  define w' where "w' = run_job j0 (w\<lparr>microtasks := js\<rparr>)"
  have eq: "w' = w\<lparr>moveInFlight := (moveInFlight w)(?key := None),
       heap := (heap w)(Wrap i := \<lparr>p_state = Settled out, p_reactions = []\<rparr>),
       microtasks := js @ new\<rparr>"
    using pp rT unfolding w'_def j0 run_job_awaiter new_def
    by (simp add: settle_def state_of_def reacts_of_def)
  have st: "state_of w' p = (if p = Wrap i then Settled out else state_of w p)" for p
    by (simp add: eq state_of_def)
  have re: "reacts_of w' p = (if p = Wrap i then [] else reacts_of w p)" for p
    by (simp add: eq reacts_of_def)
  have mt: "microtasks w' = js @ new" by (simp add: eq)
  have ql: "queue_log w' = queue_log w" and cl: "calls w' = calls w"
    and mf: "moveInFlight w' = (moveInFlight w)(?key := None)" and tl: "tail w' = tail w"
    by (simp_all add: eq)
  have ad: "adopting w' p q = adopting w p q" for p q
    using adopting_tl [OF J m, of p q] by (auto simp: adopting_def mt j0 new_def)
  have starter': "starter w' j = starter w j" for j by (simp add: starter_def ql)
  have res': "res_of w' j = res_of w j" for j by (simp add: res_of_def ql)
  have S': "inv_struct w'" using S by (simp add: inv_struct_def ql cl tl)
  have T': "inv_states w'"
  proof (rule inv_statesI)
    show "state_of w' Initial = Settled (Fulfilled Undefined)"
      using inv_states_Initial [OF T] by (simp add: st)
  next
    fix j assume "j < length (queue_log w')"
    then have j: "j < length (queue_log w)" by (simp add: ql)
    note D = inv_statesD [OF T j]
    show "entry_states w' j"
      using D pr prun mv by (auto simp: entry_states_def st res' cl ql)
  qed
  have R': "inv_reacts w'"
    unfolding inv_reacts_def
  proof
    fix p
    show "reacts_of w' p = expected_reactions w' p"
      using inv_reactsD [OF R, of p] pp
      by (cases p) (auto simp: re st follow_reacts_def ad starter' ql cl)
  qed
  have live: "live_move w' key j = (live_move w key j \<and> j \<noteq> i)" for key j
    using ik pp by (auto simp: live_move_def st ql cl)
  have live_i: "live_move w ?key i"
    using i ik mv pp by (simp add: live_move_def)
  have M1: "\<And>j. j < length (queue_log w) \<Longrightarrow> live_move w (key_of (queue_log w ! j)) j \<Longrightarrow>
      moveInFlight w (key_of (queue_log w ! j)) = Some (Ret j)"
    and M2: "\<And>key p. moveInFlight w key = Some p \<Longrightarrow>
      \<exists>j < length (queue_log w). live_move w key j \<and> p = Ret j"
    using M by (auto simp: inv_table_def)
  have M': "inv_table w'"
    unfolding inv_table_def
  proof (intro conjI allI impI)
    fix j assume "j < length (queue_log w')" and "live_move w' (key_of (queue_log w' ! j)) j"
    then have j: "j < length (queue_log w)" and l: "live_move w (key_of (queue_log w ! j)) j"
      and ji: "j \<noteq> i"
      by (simp_all add: ql live)
    have "key_of (queue_log w ! j) \<noteq> ?key"
    proof
      assume e: "key_of (queue_log w ! j) = ?key"
      have "moveInFlight w ?key = Some (Ret j)" using M1 [OF j l] e by simp
      moreover have "moveInFlight w ?key = Some (Ret i)" using M1 [OF i live_i] .
      ultimately show False using ji by simp
    qed
    then show "moveInFlight w' (key_of (queue_log w' ! j)) = Some (Ret j)"
      using M1 [OF j l] by (simp add: mf ql)
  next
    fix key p assume "moveInFlight w' key = Some p"
    then have k: "key \<noteq> ?key" and "moveInFlight w key = Some p"
      by (auto simp: mf split: if_splits)
    then obtain j where j: "j < length (queue_log w)" "live_move w key j" "p = Ret j"
      using M2 by blast
    then have "j \<noteq> i" using k by (auto simp: live_move_def)
    then show "\<exists>j < length (queue_log w'). live_move w' key j \<and> p = Ret j"
      using j by (auto simp: ql live)
  qed
  have J': "inv_jobs w'"
  proof (rule inv_jobs_tickI [OF J m mt, where i = i and N = "\<lambda>j. if j = i then set new else {}"])
    show "length (queue_log w') = length (queue_log w)" by (simp add: ql)
    show "distinct new" by (auto simp: new_def follow_reacts_def)
    show "set new = (\<Union>j<length (queue_log w). if j = i then set new else {})"
      using i by auto
  next
    fix j assume j: "j < length (queue_log w)"
    have 1: "start_jobs w' j = start_jobs w j"
      by (simp add: start_jobs_def st starter' cl)
    have 2: "tail_jobs w' j = tail_jobs w j"
      by (simp add: tail_jobs_def st)
    have 3: "follow_jobs w' (Ret j) (Run j) = follow_jobs w (Ret j) (Run j)"
      by (simp add: follow_jobs_def st ad)
    have 4: "run_jobs w' j = run_jobs w j \<union> (if j = i then set new else {})"
    proof (cases "j = i")
      case True
      then show ?thesis
        using pp ik mv prun
        by (auto simp: run_jobs_def follow_jobs_def st ad res' cl new_def follow_reacts_def res)
    next
      case False
      then show ?thesis
        by (simp add: run_jobs_def follow_jobs_def st ad res' cl)
    qed
    have 5: "await_jobs w' j \<union> (if j = i then {j0} else {}) = await_jobs w j"
      using pp pr ik mv by (auto simp: await_jobs_def st cl ql j0)
    show "entry_jobs w' j \<union> (if j = i then {j0} else {}) =
        entry_jobs w j \<union> (if j = i then set new else {})"
      unfolding entry_jobs_def 1 2 3 4 using 5 by blast
  next
    fix j assume j: "j < length (queue_log w)"
    show "j0 \<notin> entry_jobs w' j"
      by (auto simp: entry_jobs_kind j0 await_jobs_def st)
  next
    fix x j assume "x \<in> set new" and j: "j < length (queue_log w)"
    then have x: "x = reaction_job out (follower (Run i))" and na: "\<not> adopting w (Run i) (Wrap i)"
      by (auto simp: new_def follow_reacts_def split: if_splits)
    show "x \<notin> entry_jobs w j"
      using pp na mv by (auto simp: entry_jobs_kind x run_jobs_def follow_jobs_def res_of_def)
  qed
  show ?thesis
    unfolding w'_def [symmetric] inv_def using S' T' R' J' M' by simp
qed

lemma tick_start:
  assumes I: "inv w" and m: "microtasks w = j0 # js" and i: "i < length (queue_log w)"
    and j0: "j0 \<in> start_jobs w i"
  shows "inv (run_job j0 (w\<lparr>microtasks := js\<rparr>))"
proof -
  note S = invD(1) [OF I] and T = invD(2) [OF I] and R = invD(3) [OF I]
    and J = invD(4) [OF I] and M = invD(5) [OF I]
  let ?cb = "queue_log w ! i"
  from j0 obtain out where ki: "length (calls w) \<le> i"
    and pr: "state_of w (prev_of i) = Settled out" and j0: "j0 = reaction_job out (starter w i)"
    by (cases "state_of w (prev_of i)") (auto simp: start_jobs_def split: if_splits)
  have "i \<le> length (calls w)"
    using prev_settled_called [OF T i] pr by simp
  then have k: "length (calls w) = i" using ki by simp
  have task: "is_task ?cb" using inv_structD(3) [OF S i] .
  have prun: "state_of w (Run i) = Pending"
    using inv_statesD(3) [OF T i] k by auto
  define new where "new = [ResolveThenableJob (Run i) (res_of w i)]"
  define w' where "w' = run_job j0 (w\<lparr>microtasks := js\<rparr>)"
  obtain v where j0': "j0 = ReactionJob ?cb v (Some (Run i))"
    by (cases out) (simp_all add: j0 starter_def)
  have st: "state_of w' p = (if p = Ext i \<or> (is_move ?cb \<and> p = Wrap i) then Pending else state_of w p)" for p
    using task unfolding w'_def j0'
    by (cases ?cb) (auto simp: k new_promise_def perform_then_def resolve_thenable_def schedule_def state_of_def Let_def)
  have re: "reacts_of w' p =
      (if p = Ext i then (if is_move ?cb then [awaiter (key_of ?cb) (Wrap i)] else [])
       else if is_move ?cb \<and> p = Wrap i then [] else reacts_of w p)" for p
    using task unfolding w'_def j0'
    by (cases ?cb) (auto simp: k new_promise_def perform_then_def resolve_thenable_def schedule_def reacts_of_def Let_def awaiter_def)
  have mt: "microtasks w' = js @ new"
    using task unfolding w'_def j0' new_def
    by (cases ?cb) (auto simp: k new_promise_def perform_then_def resolve_thenable_def schedule_def Let_def res_of_def)
  have ql: "queue_log w' = queue_log w" and cl: "calls w' = calls w @ [task_of ?cb]"
    and mf: "moveInFlight w' = moveInFlight w" and tl: "tail w' = tail w"
    using task unfolding w'_def j0'
    by (cases ?cb; simp add: k new_promise_def perform_then_def resolve_thenable_def schedule_def Let_def)+
  have k': "length (calls w') = Suc i" by (simp add: cl k)
  have ad: "adopting w' p q = (adopting w p q \<or> (p = Run i \<and> q = res_of w i))" for p q
    using adopting_tl [OF J m, of p q] by (auto simp: adopting_def mt j0 new_def)
  have nad: "\<not> adopting w (Run i) q" for q
  proof
    assume "adopting w (Run i) q"
    then have "ResolveThenableJob (Run i) q \<in> (\<Union>j < length (queue_log w). entry_jobs w j)"
      using J by (simp add: adopting_def inv_jobs_def)
    then show False
      using k by (auto simp: entry_jobs_kind run_jobs_def)
  qed
  have starter': "starter w' j = starter w j" for j by (simp add: starter_def ql)
  have res': "res_of w' j = res_of w j" for j by (simp add: res_of_def ql)
  have S': "inv_struct w'"
    using S i by (auto simp: inv_struct_def ql cl tl k nth_append less_Suc_eq)
  have T': "inv_states w'"
  proof (rule inv_statesI)
    show "state_of w' Initial = Settled (Fulfilled Undefined)"
      using inv_states_Initial [OF T] by (simp add: st)
  next
    fix j assume "j < length (queue_log w')"
    then have j: "j < length (queue_log w)" by (simp add: ql)
    note D = inv_statesD [OF T j]
    show "entry_states w' j"
    proof (cases "j = i")
      case True
      then show ?thesis
        using D pr prun by (auto simp: entry_states_def st res' k' ql)
    next
      case False
      then show ?thesis
        using D by (auto simp: entry_states_def st res' k' ql k)
    qed
  qed
  have R': "inv_reacts w'"
    unfolding inv_reacts_def
  proof
    fix p
    show "reacts_of w' p = expected_reactions w' p"
    proof (cases p)
      case (Ext j)
      then show ?thesis
        using inv_reactsD [OF R, of "Ext j"] prun
        by (cases "j = i") (auto simp: re st follow_reacts_def ad ql k' k)
    next
      case (Wrap j)
      then show ?thesis
        using inv_reactsD [OF R, of "Wrap j"] prun
        by (cases "j = i") (auto simp: re st follow_reacts_def ad ql k' k)
    next
      case (Run j)
      then show ?thesis
        using inv_reactsD [OF R, of "Run j"]
        by (simp add: re st follow_reacts_def ad ql)
    qed (use inv_reactsD [OF R, of p] in \<open>simp_all add: re st starter' ql\<close>)
  qed
  have M': "inv_table w'"
  proof -
    have "live_move w' key j = live_move w key j" for key j
      by (auto simp: live_move_def st ql k' k less_Suc_eq)
    then show ?thesis using M by (simp add: inv_table_def ql mf)
  qed
  have J': "inv_jobs w'"
  proof (rule inv_jobs_tickI [OF J m mt, where i = i and N = "\<lambda>j. if j = i then set new else {}"])
    show "length (queue_log w') = length (queue_log w)" by (simp add: ql)
    show "distinct new" by (simp add: new_def)
    show "set new = (\<Union>j<length (queue_log w). if j = i then set new else {})"
      using i by auto
  next
    fix j assume j: "j < length (queue_log w)"
    have 1: "start_jobs w' j \<union> (if j = i then {j0} else {}) = start_jobs w j"
      using pr by (auto simp: start_jobs_def st starter' k' k j0)
    have 2: "tail_jobs w' j = tail_jobs w j"
      by (simp add: tail_jobs_def st)
    have 3: "follow_jobs w' (Ret j) (Run j) = follow_jobs w (Ret j) (Run j)"
      by (simp add: follow_jobs_def st ad)
    have 4: "run_jobs w' j = run_jobs w j \<union> (if j = i then set new else {})"
    proof (cases "j = i")
      case True
      then show ?thesis
        using prun by (simp add: run_jobs_def follow_jobs_def st ad res' k' k new_def)
    next
      case False
      then show ?thesis
        by (auto simp: run_jobs_def follow_jobs_def st ad res' k' k)
    qed
    have 5: "await_jobs w' j = await_jobs w j"
      by (auto simp: await_jobs_def st k' k ql)
    show "entry_jobs w' j \<union> (if j = i then {j0} else {}) =
        entry_jobs w j \<union> (if j = i then set new else {})"
      unfolding entry_jobs_def 2 3 4 5 using 1 by blast
  next
    fix j assume j: "j < length (queue_log w)"
    show "j0 \<notin> entry_jobs w' j"
      by (auto simp: entry_jobs_kind j0 start_jobs_def k')
  next
    fix x j assume "x \<in> set new" and j: "j < length (queue_log w)"
    then have x: "x = ResolveThenableJob (Run i) (res_of w i)"
      by (simp add: new_def)
    show "x \<notin> entry_jobs w j"
      by (auto simp: entry_jobs_kind x run_jobs_def k)
  qed
  show ?thesis
    unfolding w'_def [symmetric] inv_def using S' T' R' J' M' by simp
qed

lemma settle_ext:
  assumes I: "inv w" and ik: "i < length (calls w)"
  shows "inv (settle (Ext i) out w)"
proof (cases "state_of w (Ext i) = Pending")
  case False
  then show ?thesis using I by (simp add: settle_settled)
next
  case pp: True
  note S = invD(1) [OF I] and T = invD(2) [OF I] and R = invD(3) [OF I]
    and J = invD(4) [OF I] and M = invD(5) [OF I]
  let ?cb = "queue_log w ! i"
  have i: "i < length (queue_log w)" using ik inv_structD(1) [OF S] by simp
  have rT: "reacts_of w (Ext i) =
      (if is_move ?cb then [awaiter (key_of ?cb) (Wrap i)] else follow_reacts w (Run i) (Ext i))"
    using inv_reactsD [OF R, of "Ext i"] ik pp by simp
  have pw: "state_of w (Wrap i) = Pending" if "is_move ?cb"
    using inv_statesD(7) [OF T i ik that] pp by auto
  have prun: "state_of w (Run i) = Pending"
  proof (rule ccontr)
    assume n: "state_of w (Run i) \<noteq> Pending"
    then have "state_of w (Run i) = state_of w (res_of w i)"
      using inv_statesD(4) [OF T i] by simp
    then show False using n pp pw by (cases "is_move ?cb") (simp_all add: res_of_def)
  qed
  define new where "new = map (reaction_job out) (reacts_of w (Ext i))"
  define w' where "w' = settle (Ext i) out w"
  have eq: "w' = w\<lparr>heap := (heap w)(Ext i := \<lparr>p_state = Settled out, p_reactions = []\<rparr>),
       microtasks := microtasks w @ new\<rparr>"
    unfolding w'_def new_def using pp by (rule settle_pending)
  have st: "state_of w' p = (if p = Ext i then Settled out else state_of w p)" for p
    by (simp add: eq state_of_def)
  have re: "reacts_of w' p = (if p = Ext i then [] else reacts_of w p)" for p
    by (simp add: eq reacts_of_def)
  have mt: "microtasks w' = microtasks w @ new" by (simp add: eq)
  have ql: "queue_log w' = queue_log w" and cl: "calls w' = calls w"
    and mf: "moveInFlight w' = moveInFlight w" and tl: "tail w' = tail w"
    by (simp_all add: eq)
  have ad: "adopting w' p q = adopting w p q" for p q
    by (auto simp: adopting_def mt new_def)
  have starter': "starter w' j = starter w j" for j by (simp add: starter_def ql)
  have res': "res_of w' j = res_of w j" for j by (simp add: res_of_def ql)
  have S': "inv_struct w'" using S by (simp add: inv_struct_def ql cl tl)
  have T': "inv_states w'"
  proof (rule inv_statesI)
    show "state_of w' Initial = Settled (Fulfilled Undefined)"
      using inv_states_Initial [OF T] by (simp add: st)
  next
    fix j assume "j < length (queue_log w')"
    then have j: "j < length (queue_log w)" by (simp add: ql)
    note D = inv_statesD [OF T j]
    show "entry_states w' j"
      using D prun pw by (auto simp: entry_states_def st res' cl ql)
  qed
  have R': "inv_reacts w'"
    unfolding inv_reacts_def
  proof
    fix p
    show "reacts_of w' p = expected_reactions w' p"
      using inv_reactsD [OF R, of p]
      by (cases p) (auto simp: re st follow_reacts_def ad starter' ql cl)
  qed
  have M': "inv_table w'" using M
    by (simp add: inv_table_def live_move_def st ql cl mf)
  have J': "inv_jobs w'"
  proof (rule inv_jobs_appendI [OF J mt, where N = "\<lambda>j. if j = i then set new else {}"])
    show "length (queue_log w') = length (queue_log w)" by (simp add: ql)
    show "distinct new" by (auto simp: new_def rT follow_reacts_def)
    show "set new = (\<Union>j<length (queue_log w). if j = i then set new else {})"
      using i by auto
  next
    fix j assume j: "j < length (queue_log w)"
    have 1: "start_jobs w' j = start_jobs w j"
      by (simp add: start_jobs_def st starter' cl)
    have 2: "tail_jobs w' j = tail_jobs w j"
      by (simp add: tail_jobs_def st)
    have 3: "follow_jobs w' (Ret j) (Run j) = follow_jobs w (Ret j) (Run j)"
      by (simp add: follow_jobs_def st ad)
    have 45: "run_jobs w' j \<union> await_jobs w' j =
        run_jobs w j \<union> await_jobs w j \<union> (if j = i then set new else {})"
    proof (cases "j = i")
      case True
      show ?thesis
      proof (cases "is_move ?cb")
        case mv: True
        then show ?thesis
          using True pp pw ik
          by (auto simp: run_jobs_def follow_jobs_def await_jobs_def st ad res' cl ql new_def rT)
      next
        case False
        then show ?thesis
          using True pp ik prun
          by (auto simp: run_jobs_def follow_jobs_def await_jobs_def st ad res' cl ql new_def rT
              follow_reacts_def res_of_def)
      qed
    next
      case False
      then show ?thesis
        by (simp add: run_jobs_def follow_jobs_def await_jobs_def st ad res' cl ql)
    qed
    show "entry_jobs w' j = entry_jobs w j \<union> (if j = i then set new else {})"
      unfolding entry_jobs_def 1 2 3 using 45 by blast
  next
    fix x j assume xn: "x \<in> set new" and j: "j < length (queue_log w)"
    show "x \<notin> entry_jobs w j"
    proof (cases "is_move ?cb")
      case True
      then have "x = reaction_job out (awaiter (key_of ?cb) (Wrap i))"
        using xn by (simp add: new_def rT)
      then show ?thesis
        using pp by (auto simp: entry_jobs_kind await_jobs_def)
    next
      case False
      then have "x = reaction_job out (follower (Run i))" and "\<not> adopting w (Run i) (Ext i)"
        using xn by (auto simp: new_def rT follow_reacts_def split: if_splits)
      then show ?thesis
        using pp False by (auto simp: entry_jobs_kind run_jobs_def follow_jobs_def res_of_def)
    qed
  qed
  show ?thesis
    unfolding w'_def [symmetric] inv_def using S' T' R' J' M' by simp
qed

lemma inv_jobs_enqueueI:
  assumes J: "inv_jobs w"
    and m': "microtasks w' = microtasks w @ new"
    and n': "length (queue_log w') = Suc (length (queue_log w))"
    and pt: "\<And>j. j < length (queue_log w) \<Longrightarrow> entry_jobs w' j = entry_jobs w j"
    and last: "entry_jobs w' (length (queue_log w)) = set new"
    and dn: "distinct new"
    and fresh: "\<And>x j. x \<in> set new \<Longrightarrow> j < length (queue_log w) \<Longrightarrow> x \<notin> entry_jobs w j"
  shows "inv_jobs w'"
proof -
  let ?n = "length (queue_log w)"
  from J have d: "distinct (microtasks w)"
    and s: "set (microtasks w) = (\<Union>j < ?n. entry_jobs w j)"
    by (simp_all add: inv_jobs_def)
  have "x \<notin> set (microtasks w)" if "x \<in> set new" for x
    using fresh [OF that] s by blast
  then have dist: "distinct (microtasks w @ new)" using d dn by auto
  have "(\<Union>j < Suc ?n. entry_jobs w' j) = (\<Union>j < ?n. entry_jobs w' j) \<union> entry_jobs w' ?n"
    by (simp add: lessThan_Suc Un_commute)
  also have "(\<Union>j < ?n. entry_jobs w' j) = (\<Union>j < ?n. entry_jobs w j)"
    using pt by simp
  finally show ?thesis using dist s last by (simp add: inv_jobs_def m' n')
qed

lemma inv_parts_moveInFlight [simp]:
  "inv_struct (w\<lparr>moveInFlight := t\<rparr>) = inv_struct w"
  "inv_states (w\<lparr>moveInFlight := t\<rparr>) = inv_states w"
  "inv_reacts (w\<lparr>moveInFlight := t\<rparr>) = inv_reacts w"
  "inv_jobs (w\<lparr>moveInFlight := t\<rparr>) = inv_jobs w"
proof -
  have [simp]: "state_of (w\<lparr>moveInFlight := t\<rparr>) = state_of w"
    "reacts_of (w\<lparr>moveInFlight := t\<rparr>) = reacts_of w"
    by (simp_all add: state_of_def reacts_of_def fun_eq_iff)
  have [simp]: "res_of (w\<lparr>moveInFlight := t\<rparr>) = res_of w"
    "starter (w\<lparr>moveInFlight := t\<rparr>) = starter w"
    "adopting (w\<lparr>moveInFlight := t\<rparr>) = adopting w"
    by (simp_all add: res_of_def starter_def adopting_def fun_eq_iff)
  have [simp]: "follow_jobs (w\<lparr>moveInFlight := t\<rparr>) = follow_jobs w"
    "follow_reacts (w\<lparr>moveInFlight := t\<rparr>) = follow_reacts w"
    by (simp_all add: follow_jobs_def follow_reacts_def fun_eq_iff)
  have [simp]: "entry_jobs (w\<lparr>moveInFlight := t\<rparr>) = entry_jobs w"
    by (simp add: entry_jobs_def start_jobs_def tail_jobs_def run_jobs_def await_jobs_def
        fun_eq_iff)
  have [simp]: "expected_reactions (w\<lparr>moveInFlight := t\<rparr>) p = expected_reactions w p" for p
    by (cases p) simp_all
  show "inv_struct (w\<lparr>moveInFlight := t\<rparr>) = inv_struct w"
    by (simp add: inv_struct_def)
  show "inv_states (w\<lparr>moveInFlight := t\<rparr>) = inv_states w"
    by (simp add: inv_states_def entry_states_def)
  show "inv_reacts (w\<lparr>moveInFlight := t\<rparr>) = inv_reacts w"
    by (simp add: inv_reacts_def)
  show "inv_jobs (w\<lparr>moveInFlight := t\<rparr>) = inv_jobs w"
    by (simp add: inv_jobs_def)
qed

lemma new_promise_obs [simp]:
  "fst (new_promise a w) = a"
  "state_of (snd (new_promise a w)) p = (if p = a then Pending else state_of w p)"
  "reacts_of (snd (new_promise a w)) p = (if p = a then [] else reacts_of w p)"
  "microtasks (snd (new_promise a w)) = microtasks w"
  "queue_log (snd (new_promise a w)) = queue_log w"
  "calls (snd (new_promise a w)) = calls w"
  "moveInFlight (snd (new_promise a w)) = moveInFlight w"
  "tail (snd (new_promise a w)) = tail w"
  "closures (snd (new_promise a w)) = closures w"
  by (simp_all add: new_promise_def state_of_def reacts_of_def)

lemma perform_then_obs [simp]:
  "state_of (perform_then q r w) p = state_of w p"
  "reacts_of (perform_then q r w) p =
     (if p = q \<and> state_of w q = Pending then reacts_of w p @ [r] else reacts_of w p)"
  "microtasks (perform_then q r w) =
     microtasks w @ (case state_of w q of Pending \<Rightarrow> [] | Settled out \<Rightarrow> [reaction_job out r])"
  "queue_log (perform_then q r w) = queue_log w"
  "calls (perform_then q r w) = calls w"
  "moveInFlight (perform_then q r w) = moveInFlight w"
  "tail (perform_then q r w) = tail w"
  "closures (perform_then q r w) = closures w"
  by (cases "state_of w q"; simp add: perform_then_def schedule_def state_of_def reacts_of_def)+

lemma schedule_obs [simp]:
  "state_of (schedule j w) p = state_of w p"
  "reacts_of (schedule j w) p = reacts_of w p"
  "microtasks (schedule j w) = microtasks w @ [j]"
  "queue_log (schedule j w) = queue_log w"
  "calls (schedule j w) = calls w"
  "moveInFlight (schedule j w) = moveInFlight w"
  "tail (schedule j w) = tail w"
  "closures (schedule j w) = closures w"
  by (simp_all add: schedule_def state_of_def reacts_of_def)

lemma field_update_obs [simp]:
  "state_of (w\<lparr>tail := t\<rparr>) p = state_of w p"
  "reacts_of (w\<lparr>tail := t\<rparr>) p = reacts_of w p"
  "state_of (w\<lparr>queue_log := q\<rparr>) p = state_of w p"
  "reacts_of (w\<lparr>queue_log := q\<rparr>) p = reacts_of w p"
  "state_of (w\<lparr>closures := c\<rparr>) p = state_of w p"
  "reacts_of (w\<lparr>closures := c\<rparr>) p = reacts_of w p"
  "state_of (w\<lparr>moveInFlight := m\<rparr>) p = state_of w p"
  "reacts_of (w\<lparr>moveInFlight := m\<rparr>) p = reacts_of w p"
  by (simp_all add: state_of_def reacts_of_def)

lemma enqueue_unfold:
  "enqueue fn w =
     (let i = length (queue_log w);
          w1 = snd (new_promise (Ret i) w);
          w2 = perform_then (tail w) (Reaction fn fn (Some (Run i))) (snd (new_promise (Run i) w1));
          w3 = perform_then (Run i) (tailer i) (snd (new_promise (Tail i) w2));
          w5 = schedule (ResolveThenableJob (Ret i) (Run i)) (w3\<lparr>tail := Tail i\<rparr>)
      in (Ret i, w5\<lparr>queue_log := queue_log w @ [fn]\<rparr>))"
  by (simp add: enqueue_def promise_then_def Let_def split_beta tailer_def resolve_thenable_def)

lemma enqueue_effect:
  fixes w fn
  defines "n \<equiv> length (queue_log w)"
  defines "w' \<equiv> snd (enqueue fn w)"
  assumes tl: "tail w = prev_of n"
  shows "fst (enqueue fn w) = Ret n"
    and "state_of w' p = (if p = Ret n \<or> p = Run n \<or> p = Tail n then Pending else state_of w p)"
    and "reacts_of w' p =
      (if p = Ret n then [] else if p = Run n then [tailer n] else if p = Tail n then []
       else if p = prev_of n \<and> state_of w (prev_of n) = Pending
       then reacts_of w p @ [Reaction fn fn (Some (Run n))] else reacts_of w p)"
    and "microtasks w' = microtasks w @
      (case state_of w (prev_of n) of Pending \<Rightarrow> []
       | Settled out \<Rightarrow> [reaction_job out (Reaction fn fn (Some (Run n)))]) @
      [ResolveThenableJob (Ret n) (Run n)]"
    and "queue_log w' = queue_log w @ [fn]" and "calls w' = calls w"
    and "moveInFlight w' = moveInFlight w" and "tail w' = Tail n"
    and "closures w' = closures w"
proof -
  show "fst (enqueue fn w) = Ret n" by (simp add: enqueue_unfold Let_def n_def)
  show "state_of w' p = (if p = Ret n \<or> p = Run n \<or> p = Tail n then Pending else state_of w p)"
    unfolding w'_def n_def by (simp add: enqueue_unfold Let_def)
  show "reacts_of w' p =
      (if p = Ret n then [] else if p = Run n then [tailer n] else if p = Tail n then []
       else if p = prev_of n \<and> state_of w (prev_of n) = Pending
       then reacts_of w p @ [Reaction fn fn (Some (Run n))] else reacts_of w p)"
    unfolding w'_def using tl unfolding n_def by (auto simp add: enqueue_unfold Let_def)
  show "microtasks w' = microtasks w @
      (case state_of w (prev_of n) of Pending \<Rightarrow> []
       | Settled out \<Rightarrow> [reaction_job out (Reaction fn fn (Some (Run n)))]) @
      [ResolveThenableJob (Ret n) (Run n)]"
    unfolding w'_def using tl unfolding n_def by (auto simp add: enqueue_unfold Let_def)
  show "queue_log w' = queue_log w @ [fn]" and "calls w' = calls w"
    and "moveInFlight w' = moveInFlight w" and "tail w' = Tail n"
    and "closures w' = closures w"
    unfolding w'_def n_def by (simp_all add: enqueue_unfold Let_def)
qed

lemma enqueue_inv_parts:
  fixes w fn
  defines "n \<equiv> length (queue_log w)"
  defines "w' \<equiv> snd (enqueue fn w)"
  assumes I: "inv w" and task: "is_task fn"
  shows "inv_struct w'" and "inv_states w'" and "inv_reacts w'" and "inv_jobs w'"
    and "live_move w' key j =
      (if j = n then is_move fn \<and> key_of fn = key else live_move w key j)"
proof -
  note S = invD(1) [OF I] and T = invD(2) [OF I] and R = invD(3) [OF I]
    and J = invD(4) [OF I] and M = invD(5) [OF I]
  have tl: "tail w = prev_of (length (queue_log w))" using inv_structD(2) [OF S] .
  note eff = enqueue_effect [OF tl, of fn, folded n_def w'_def]
  note st = eff(2) and re = eff(3) and mt = eff(4) and ql = eff(5) and cl = eff(6)
    and mf = eff(7) and tl' = eff(8)
  have kn: "length (calls w) \<le> n" using inv_structD(1) [OF S] by (simp add: n_def)
  define new where "new = (case state_of w (prev_of n) of Pending \<Rightarrow> []
       | Settled out \<Rightarrow> [reaction_job out (Reaction fn fn (Some (Run n)))]) @
      [ResolveThenableJob (Ret n) (Run n)]"
  have mt': "microtasks w' = microtasks w @ new" by (simp add: mt new_def)
  have qj: "queue_log w' ! j = queue_log w ! j" if "j < n" for j
    using that by (simp add: ql nth_append n_def)
  have qn: "queue_log w' ! n = fn" by (simp add: ql n_def)
  have len: "length (queue_log w') = Suc n" by (simp add: ql n_def)
  have starter_n: "starter w' n = Reaction fn fn (Some (Run n))"
    by (simp add: starter_def qn)
  have starter': "starter w' j = starter w j" if "j < n" for j
    using that by (simp add: starter_def qj)
  have res': "res_of w' j = res_of w j" if "j < n" for j
    using that by (simp add: res_of_def qj)
  have nadopt: "\<not> adopting w p q" if "p = Ret n \<or> p = Run n" for p q
  proof
    assume "adopting w p q"
    then have "ResolveThenableJob p q \<in> (\<Union>j < length (queue_log w). entry_jobs w j)"
      using J by (simp add: adopting_def inv_jobs_def)
    then show False
      using that by (auto simp: entry_jobs_kind n_def)
  qed
  have ad: "adopting w' p q = (adopting w p q \<or> (p = Ret n \<and> q = Run n))" for p q
    by (cases "state_of w (prev_of n)") (auto simp: adopting_def mt)
  have stj: "state_of w' (Ret j) = state_of w (Ret j)" "state_of w' (Run j) = state_of w (Run j)"
    "state_of w' (Tail j) = state_of w (Tail j)" if "j < n" for j
    using that by (simp_all add: st)
  have stx: "state_of w' (Ext j) = state_of w (Ext j)" "state_of w' (Wrap j) = state_of w (Wrap j)"
    "state_of w' Initial = state_of w Initial" for j
    by (simp_all add: st)
  have str: "state_of w' (res_of v j) = state_of w (res_of v j)" for v j
    by (simp add: res_of_def st)
  have stp: "state_of w' (prev_of j) = state_of w (prev_of j)" if "j \<le> n" for j
    using that by (cases j) (simp_all add: st)
  show S': "inv_struct w'"
    using S task by (auto simp: inv_struct_def ql cl tl' nth_append n_def less_Suc_eq)
  show T': "inv_states w'"
  proof (rule inv_statesI)
    show "state_of w' Initial = Settled (Fulfilled Undefined)"
      using inv_states_Initial [OF T] by (simp add: st)
  next
    fix j assume "j < length (queue_log w')"
    then have "j < Suc n" by (simp add: len)
    then consider "j < n" | "j = n" by linarith
    then show "entry_states w' j"
    proof cases
      case 1
      then have j: "j < length (queue_log w)" by (simp add: n_def)
      note D = inv_statesD [OF T j]
      show ?thesis
        using D 1 by (auto simp: entry_states_def stj stx stp str res' cl qj)
    next
      case 2
      then show ?thesis
        using kn by (auto simp: entry_states_def st cl)
    qed
  qed
  show R': "inv_reacts w'"
    unfolding inv_reacts_def
  proof
    fix p
    show "reacts_of w' p = expected_reactions w' p"
    proof (cases p)
      case Initial
      then show ?thesis
        using inv_reactsD [OF R, of Initial] inv_states_Initial [OF T]
        by (auto simp: re)
    next
      case (Ret j)
      then show ?thesis
        using inv_reactsD [OF R, of "Ret j"] by (auto simp: re)
    next
      case (Run j)
      show ?thesis
      proof (cases "j = n")
        case True
        then show ?thesis by (simp add: Run re st len follow_reacts_def ad)
      next
        case False
        then show ?thesis
          using inv_reactsD [OF R, of "Run j"] nadopt
          by (auto simp: Run re st len follow_reacts_def ad n_def)
      qed
    next
      case (Tail j)
      consider "Suc j < n" | "Suc j = n" | "j = n" | "n < j" by linarith
      then show ?thesis
      proof cases
        case 1
        then show ?thesis
          using inv_reactsD [OF R, of "Tail j"]
          by (auto simp: Tail re st len starter' n_def)
      next
        case 2
        then have pn: "prev_of n = Tail j" and nj: "n = Suc j" by auto
        have jl: "j < length (queue_log w)" "\<not> Suc j < length (queue_log w)"
          using 2 by (simp_all add: n_def)
        have e: "reacts_of w (Tail j) = []"
          using inv_reactsD [OF R, of "Tail j"] jl by simp
        have "reacts_of w' (Tail j) =
            (if state_of w (Tail j) = Pending then [starter w' n] else [])"
          using pn starter_n by (simp add: re e nj)
        also have "\<dots> = expected_reactions w' (Tail j)"
          using pn by (simp add: len nj st)
        finally show ?thesis by (simp add: Tail)
      next
        case 3
        then show ?thesis by (simp add: Tail re st len)
      next
        case 4
        then show ?thesis
          using inv_reactsD [OF R, of "Tail j"]
          by (auto simp: Tail re st len n_def)
      qed
    next
      case (Ext j)
      then show ?thesis
        using inv_reactsD [OF R, of "Ext j"] kn
        by (auto simp: re st follow_reacts_def ad cl qj)
    next
      case (Wrap j)
      then show ?thesis
        using inv_reactsD [OF R, of "Wrap j"] kn
        by (auto simp: re st follow_reacts_def ad cl qj)
    qed
  qed
  show J': "inv_jobs w'"
  proof (rule inv_jobs_enqueueI [OF J mt'])
    show "length (queue_log w') = Suc (length (queue_log w))" by (simp add: ql)
    show "distinct new"
      by (cases "state_of w (prev_of n)") (simp_all add: new_def)
  next
    fix j assume "j < length (queue_log w)"
    then have j: "j < n" by (simp add: n_def)
    have 1: "start_jobs w' j = start_jobs w j"
      using j by (simp add: start_jobs_def stp starter' cl)
    have 2: "tail_jobs w' j = tail_jobs w j"
      using j by (simp add: tail_jobs_def stj)
    have 3: "follow_jobs w' (Ret j) (Run j) = follow_jobs w (Ret j) (Run j)"
      using j by (simp add: follow_jobs_def stj ad)
    have 4: "run_jobs w' j = run_jobs w j"
      using j qj [OF j] by (simp add: run_jobs_def follow_jobs_def stj str ad res' cl)
    have 5: "await_jobs w' j = await_jobs w j"
      using j by (simp add: await_jobs_def stx cl qj)
    show "entry_jobs w' j = entry_jobs w j"
      unfolding entry_jobs_def 1 2 3 4 5 ..
  next
    show "entry_jobs w' (length (queue_log w)) = set new"
      using kn unfolding n_def [symmetric]
      by (cases "state_of w (prev_of n)")
        (auto simp: entry_jobs_def start_jobs_def tail_jobs_def follow_jobs_def run_jobs_def
          await_jobs_def st stp cl ad starter_n new_def)
  next
    fix x j assume x: "x \<in> set new" and "j < length (queue_log w)"
    then have j: "j < n" by (simp add: n_def)
    from x consider out where "x = reaction_job out (starter w' n)"
      | "x = ResolveThenableJob (Ret n) (Run n)"
      by (cases "state_of w (prev_of n)") (auto simp: new_def starter_n)
    then show "x \<notin> entry_jobs w j"
      using j by cases (auto simp: entry_jobs_kind)
  qed
  show "live_move w' key j =
      (if j = n then is_move fn \<and> key_of fn = key else live_move w key j)"
  proof (cases "j = n")
    case True
    then show ?thesis using kn by (simp add: live_move_def len qn cl)
  next
    case False
    then show ?thesis
      using qj [of j] by (auto simp: live_move_def len stx cl less_Suc_eq n_def)
  qed
qed

lemma live_move_moveInFlight [simp]:
  "live_move (w\<lparr>moveInFlight := t\<rparr>) = live_move w"
  by (simp add: live_move_def state_of_def fun_eq_iff)

lemma inv_closures [simp]: "inv (w\<lparr>closures := c\<rparr>) = inv w"
proof -
  have [simp]: "state_of (w\<lparr>closures := c\<rparr>) = state_of w"
    "reacts_of (w\<lparr>closures := c\<rparr>) = reacts_of w"
    by (simp_all add: state_of_def reacts_of_def fun_eq_iff)
  have [simp]: "res_of (w\<lparr>closures := c\<rparr>) = res_of w"
    "starter (w\<lparr>closures := c\<rparr>) = starter w"
    "adopting (w\<lparr>closures := c\<rparr>) = adopting w"
    by (simp_all add: res_of_def starter_def adopting_def fun_eq_iff)
  have [simp]: "follow_jobs (w\<lparr>closures := c\<rparr>) = follow_jobs w"
    "follow_reacts (w\<lparr>closures := c\<rparr>) = follow_reacts w"
    by (simp_all add: follow_jobs_def follow_reacts_def fun_eq_iff)
  have [simp]: "entry_jobs (w\<lparr>closures := c\<rparr>) = entry_jobs w"
    by (simp add: entry_jobs_def start_jobs_def tail_jobs_def run_jobs_def await_jobs_def
        fun_eq_iff)
  have [simp]: "expected_reactions (w\<lparr>closures := c\<rparr>) p = expected_reactions w p" for p
    by (cases p) simp_all
  have [simp]: "live_move (w\<lparr>closures := c\<rparr>) = live_move w"
    by (simp add: live_move_def fun_eq_iff)
  show ?thesis
    by (simp add: inv_def inv_struct_def inv_states_def entry_states_def inv_reacts_def
        inv_jobs_def inv_table_def)
qed

lemma enqueue_task_inv:
  assumes I: "inv w"
  shows "inv (snd (enqueue (Task t) w))"
proof -
  note P = enqueue_inv_parts [OF I, of "Task t"]
  have tl: "tail w = prev_of (length (queue_log w))"
    using inv_structD(2) [OF invD(1) [OF I]] .
  note eff = enqueue_effect [OF tl, of "Task t"]
  have M: "inv_table w" using invD(5) [OF I] .
  have lm: "live_move (snd (enqueue (Task t) w)) key j =
      (j \<noteq> length (queue_log w) \<and> live_move w key j)" for key j
    using P(5) [of key j] by simp
  have lw: "live_move w key j \<Longrightarrow> j < length (queue_log w)" for key j
    by (simp add: live_move_def)
  have M1: "\<And>i. i < length (queue_log w) \<Longrightarrow> live_move w (key_of (queue_log w ! i)) i \<Longrightarrow>
      moveInFlight w (key_of (queue_log w ! i)) = Some (Ret i)"
    and M2: "\<And>k p. moveInFlight w k = Some p \<Longrightarrow>
      \<exists>i<length (queue_log w). live_move w k i \<and> p = Ret i"
    using M unfolding inv_table_def by blast+
  have "inv_table (snd (enqueue (Task t) w))"
    unfolding inv_table_def lm eff(5) eff(7)
  proof (intro conjI allI impI)
    fix i
    assume "i < length (queue_log w @ [Task t])"
      and "i \<noteq> length (queue_log w) \<and> live_move w (key_of ((queue_log w @ [Task t]) ! i)) i"
    then have i: "i < length (queue_log w)"
      and l: "live_move w (key_of ((queue_log w @ [Task t]) ! i)) i" by auto
    have q: "(queue_log w @ [Task t]) ! i = queue_log w ! i"
      using i by (simp add: nth_append)
    show "moveInFlight w (key_of ((queue_log w @ [Task t]) ! i)) = Some (Ret i)"
      using M1 [OF i] l unfolding q by simp
  next
    fix k p
    assume "moveInFlight w k = Some p"
    then obtain i where "i < length (queue_log w)" "live_move w k i" "p = Ret i"
      using M2 by blast
    then show "\<exists>i<length (queue_log w @ [Task t]).
        (i \<noteq> length (queue_log w) \<and> live_move w k i) \<and> p = Ret i"
      by (intro exI [of _ i]) simp
  qed
  then show ?thesis
    using P(1-4) by (simp add: inv_def)
qed

lemma enqueue_move_inv:
  fixes key t w
  defines "w1 \<equiv> snd (enqueue (MoveTask key t) w)"
  assumes I: "inv w" and free: "moveInFlight w key = None"
  shows "inv (w1\<lparr>moveInFlight := (moveInFlight w1)(key \<mapsto> fst (enqueue (MoveTask key t) w))\<rparr>)"
proof -
  note P = enqueue_inv_parts [OF I, of "MoveTask key t", folded w1_def]
  have tl: "tail w = prev_of (length (queue_log w))"
    using inv_structD(2) [OF invD(1) [OF I]] .
  note eff = enqueue_effect [OF tl, of "MoveTask key t", folded w1_def]
  have M: "inv_table w" using invD(5) [OF I] .
  define n where "n = length (queue_log w)"
  have lm: "live_move w1 k j = (if j = n then k = key else live_move w k j)" for k j
    using P(5) [of k j] by (auto simp: n_def)
  have lw: "live_move w k j \<Longrightarrow> j < n \<and> key_of (queue_log w ! j) = k" for k j
    by (auto simp: live_move_def n_def)
  have nokey: "\<not> live_move w key j" for j
  proof
    assume l: "live_move w key j"
    then have "j < length (queue_log w)" "key_of (queue_log w ! j) = key"
      using lw [OF l] by (simp_all add: n_def)
    then have "moveInFlight w key = Some (Ret j)"
      using M l unfolding inv_table_def by blast
    then show False using free by simp
  qed
  have M1: "\<And>i. i < n \<Longrightarrow> live_move w (key_of (queue_log w ! i)) i \<Longrightarrow>
      moveInFlight w (key_of (queue_log w ! i)) = Some (Ret i)"
    and M2: "\<And>k p. moveInFlight w k = Some p \<Longrightarrow> \<exists>i<n. live_move w k i \<and> p = Ret i"
    using M unfolding inv_table_def n_def by blast+
  have "inv_table (w1\<lparr>moveInFlight := (moveInFlight w1)(key \<mapsto> Ret n)\<rparr>)"
    unfolding inv_table_def
  proof (intro conjI allI impI)
    fix i
    assume i: "i < length (queue_log (w1\<lparr>moveInFlight := (moveInFlight w1)(key \<mapsto> Ret n)\<rparr>))"
      and l: "live_move (w1\<lparr>moveInFlight := (moveInFlight w1)(key \<mapsto> Ret n)\<rparr>)
        (key_of (queue_log (w1\<lparr>moveInFlight := (moveInFlight w1)(key \<mapsto> Ret n)\<rparr>) ! i)) i"
    from i have "i < Suc n" by (simp add: eff(5) n_def)
    then consider "i = n" | "i < n" by linarith
    then show "moveInFlight (w1\<lparr>moveInFlight := (moveInFlight w1)(key \<mapsto> Ret n)\<rparr>)
        (key_of (queue_log (w1\<lparr>moveInFlight := (moveInFlight w1)(key \<mapsto> Ret n)\<rparr>) ! i)) = Some (Ret i)"
    proof cases
      case 1
      then show ?thesis by (simp add: eff(5) n_def)
    next
      case 2
      then have q: "queue_log w1 ! i = queue_log w ! i"
        by (simp add: eff(5) nth_append n_def)
      have l': "live_move w (key_of (queue_log w ! i)) i"
        using l 2 by (simp add: q lm)
      then have "key_of (queue_log w ! i) \<noteq> key" using nokey by auto
      then show ?thesis
        using M1 [OF 2 l'] by (simp add: q eff(7))
    qed
  next
    fix k p
    assume "moveInFlight (w1\<lparr>moveInFlight := (moveInFlight w1)(key \<mapsto> Ret n)\<rparr>) k = Some p"
    then have kp: "(k = key \<and> p = Ret n) \<or> (k \<noteq> key \<and> moveInFlight w k = Some p)"
      by (auto simp: eff(7) split: if_splits)
    then show "\<exists>i<length (queue_log (w1\<lparr>moveInFlight := (moveInFlight w1)(key \<mapsto> Ret n)\<rparr>)).
        live_move (w1\<lparr>moveInFlight := (moveInFlight w1)(key \<mapsto> Ret n)\<rparr>) k i \<and> p = Ret i"
    proof
      assume "k = key \<and> p = Ret n"
      then show ?thesis
        by (intro exI [of _ n]) (simp add: eff(5) n_def lm [unfolded n_def])
    next
      assume a: "k \<noteq> key \<and> moveInFlight w k = Some p"
      then obtain i where "i < n" "live_move w k i" "p = Ret i"
        using M2 by blast
      then show ?thesis
        by (intro exI [of _ i]) (simp add: eff(5) n_def lm [unfolded n_def])
    qed
  qed
  then show ?thesis
    using P(1-4) by (simp add: inv_def eff(1) n_def)
qed

lemma enqueueMoveOnce_inv:
  assumes I: "inv w"
  shows "inv (snd (enqueueMoveOnce player t w))"
proof (cases "moveInFlight w (toLowerCase player)")
  case None
  then show ?thesis
    using enqueue_move_inv [OF I None, of t]
    by (simp add: enqueueMoveOnce_def Let_def split_beta)
next
  case (Some p)
  then show ?thesis
    using I by (simp add: enqueueMoveOnce_def Let_def)
qed

lemma tick_inv:
  assumes I: "inv w"
  shows "inv (step Tick w)"
proof (cases "microtasks w")
  case Nil
  then show ?thesis using I by simp
next
  case (Cons j0 js)
  note J = invD(4) [OF I]
  obtain i where i: "i < length (queue_log w)" and e: "j0 \<in> entry_jobs w i"
    using head_job_entry [OF J Cons] by blast
  from e consider "j0 \<in> start_jobs w i" | "j0 \<in> tail_jobs w i"
    | "j0 \<in> follow_jobs w (Ret i) (Run i)" | "j0 \<in> run_jobs w i" | "j0 \<in> await_jobs w i"
    by (auto simp: entry_jobs_def)
  then have "inv (run_job j0 (w\<lparr>microtasks := js\<rparr>))"
  proof cases
    case 1
    then show ?thesis by (rule tick_start [OF I Cons i])
  next
    case 2
    then show ?thesis by (rule tick_tail [OF I Cons i])
  next
    case 3
    then show ?thesis
    proof (cases rule: follow_jobs_cases)
      case adopt
      then show ?thesis by (intro tick_adopt_ret [OF I Cons i])
    next
      case (settle out)
      then show ?thesis by (intro tick_settle_ret [OF I Cons i])
    qed
  next
    case 4
    then have ik: "i < length (calls w)"
      and f: "j0 \<in> follow_jobs w (Run i) (res_of w i)"
      by (auto simp: run_jobs_def split: if_splits)
    from f show ?thesis
    proof (cases rule: follow_jobs_cases)
      case adopt
      then show ?thesis by (intro tick_adopt_run [OF I Cons i _ ik])
    next
      case (settle out)
      then show ?thesis by (intro tick_settle_run [OF I Cons i _ ik])
    qed
  next
    case 5
    then obtain out where "j0 = reaction_job out (awaiter (key_of (queue_log w ! i)) (Wrap i))"
      "i < length (calls w)" "is_move (queue_log w ! i)" "state_of w (Wrap i) = Pending"
      "state_of w (Ext i) = Settled out"
      by (cases "state_of w (Ext i)") (auto simp: await_jobs_def split: if_splits)
    then show ?thesis by (intro tick_await [OF I Cons i])
  qed
  then show ?thesis by (simp add: Cons)
qed

lemma step_inv: "inv w \<Longrightarrow> inv (step ev w)"
proof (cases ev)
  case Enqueue
  assume "inv w"
  then have "inv (w\<lparr>closures := Suc (closures w)\<rparr>)" by simp
  then show ?thesis
    unfolding Enqueue by (simp add: new_closure_def enqueue_task_inv del: inv_closures)
next
  case (Move player)
  assume "inv w"
  then have "inv (w\<lparr>closures := Suc (closures w)\<rparr>)" by simp
  then show ?thesis
    unfolding Move by (simp add: new_closure_def enqueueMoveOnce_inv del: inv_closures)
next
  case Tick
  assume "inv w"
  then show ?thesis unfolding Tick by (rule tick_inv)
next
  case (Settle i out)
  assume "inv w"
  then show ?thesis unfolding Settle by (simp add: settle_ext)
qed

lemma run_inv: "inv w \<Longrightarrow> inv (run evs w)"
  by (induction evs arbitrary: w) (simp_all add: run_def step_inv)

lemma run_initial_inv: "inv (run evs initial)"
  by (rule run_inv [OF inv_initial])

lemma run_append: "run (evs @ evs') w = run evs' (run evs w)"
  by (simp add: run_def)

section \<open>The queue: what a step can change\<close>

lemma settle_obs [simp]:
  "state_of (settle q out w) p =
     (if p = q \<and> state_of w q = Pending then Settled out else state_of w p)"
  "reacts_of (settle q out w) p =
     (if p = q \<and> state_of w q = Pending then [] else reacts_of w p)"
  "microtasks (settle q out w) =
     microtasks w @ (if state_of w q = Pending then map (reaction_job out) (reacts_of w q) else [])"
  "queue_log (settle q out w) = queue_log w"
  "calls (settle q out w) = calls w"
  "moveInFlight (settle q out w) = moveInFlight w"
  "tail (settle q out w) = tail w"
  "closures (settle q out w) = closures w"
  by (cases "state_of w q"; simp add: settle_def state_of_def reacts_of_def)+

lemma field_update_obs2 [simp]:
  "state_of (w\<lparr>calls := c\<rparr>) p = state_of w p"
  "reacts_of (w\<lparr>calls := c\<rparr>) p = reacts_of w p"
  "state_of (w\<lparr>microtasks := m\<rparr>) p = state_of w p"
  "reacts_of (w\<lparr>microtasks := m\<rparr>) p = reacts_of w p"
  by (simp_all add: state_of_def reacts_of_def)

lemma call_cb_obs [simp]:
  "queue_log (snd (call_cb cb v w)) = queue_log w"
  "calls (snd (call_cb cb v w)) = (if is_task cb then calls w @ [task_of cb] else calls w)"
  "closures (snd (call_cb cb v w)) = closures w"
  "tail (snd (call_cb cb v w)) = tail w"
  by (cases cb, simp_all add: Let_def split_beta)+

lemma resolve_derived_obs [simp]:
  "queue_log (resolve_derived d c w) = queue_log w"
  "calls (resolve_derived d c w) = calls w"
  "closures (resolve_derived d c w) = closures w"
  "tail (resolve_derived d c w) = tail w"
  "moveInFlight (resolve_derived d c w) = moveInFlight w"
  by (cases c, simp_all add: resolve_thenable_def)+

lemma run_job_obs [simp]:
  "queue_log (run_job j w) = queue_log w"
  "calls (run_job (ReactionJob cb v d) w) = (if is_task cb then calls w @ [task_of cb] else calls w)"
  "calls (run_job (ResolveThenableJob p q) w) = calls w"
  "closures (run_job j w) = closures w"
  "tail (run_job j w) = tail w"
proof -
  show "calls (run_job (ReactionJob cb v d) w) = (if is_task cb then calls w @ [task_of cb] else calls w)"
    by (cases d) (simp_all add: split_beta)
  show "calls (run_job (ResolveThenableJob p q) w) = calls w" by simp
  show "queue_log (run_job j w) = queue_log w"
    by (cases j) (simp_all add: split_beta split: option.split)
  show "closures (run_job j w) = closures w"
    by (cases j) (simp_all add: split_beta split: option.split)
  show "tail (run_job j w) = tail w"
    by (cases j) (simp_all add: split_beta split: option.split)
qed

lemma enqueue_obs [simp]:
  "fst (enqueue fn w) = Ret (length (queue_log w))"
  "queue_log (snd (enqueue fn w)) = queue_log w @ [fn]"
  "calls (snd (enqueue fn w)) = calls w"
  "closures (snd (enqueue fn w)) = closures w"
  "moveInFlight (snd (enqueue fn w)) = moveInFlight w"
  "tail (snd (enqueue fn w)) = Tail (length (queue_log w))"
  "state_of (snd (enqueue fn w)) p =
     (if p = Ret (length (queue_log w)) \<or> p = Run (length (queue_log w)) \<or>
         p = Tail (length (queue_log w))
      then Pending else state_of w p)"
  by (simp_all add: enqueue_unfold Let_def)

lemma call_cb_settled:
  assumes "state_of w p = Settled out" and "allocated w p"
  shows "state_of (snd (call_cb cb v w)) p = Settled out"
  using assms by (cases cb; cases p) (auto simp: Let_def split_beta)

lemma run_job_settled:
  assumes "state_of w p = Settled out" and "allocated w p"
  shows "state_of (run_job j w) p = Settled out"
proof (cases j)
  case (ReactionJob cb v d)
  have 1: "state_of (snd (call_cb cb v w)) p = Settled out"
    using assms by (rule call_cb_settled)
  have 2: "state_of (resolve_derived dp c w1) p = Settled out"
    if "state_of w1 p = Settled out" for dp c w1
    using that by (cases c) (auto simp: resolve_thenable_def)
  show ?thesis
    using 1 2 by (cases d) (simp_all add: ReactionJob split_beta)
next
  case (ResolveThenableJob a b)
  then show ?thesis using assms by simp
qed

lemma step_queue_log: "prefix (queue_log w) (queue_log (step ev w))"
  by (cases ev) (simp_all add: new_closure_def enqueueMoveOnce_def Let_def split_beta
      split: list.split option.split)

lemma step_calls: "prefix (calls w) (calls (step ev w))"
proof (cases ev)
  case Tick
  show ?thesis
  proof (cases "microtasks w")
    case Nil then show ?thesis by (simp add: Tick)
  next
    case (Cons j js)
    then show ?thesis by (cases j) (simp_all add: Tick del: run_job.simps)
  qed
qed (simp_all add: new_closure_def enqueueMoveOnce_def Let_def split_beta split: option.split)

lemma allocated_mono:
  assumes "allocated w p" and "prefix (queue_log w) (queue_log w')"
    and "prefix (calls w) (calls w')"
  shows "allocated w' p"
  using assms by (cases p) (auto dest: prefix_length_le)

lemma step_settled:
  assumes "state_of w p = Settled out" and "allocated w p"
  shows "state_of (step ev w) p = Settled out"
proof (cases ev)
  case Enqueue
  then show ?thesis using assms by (cases p) (auto simp: new_closure_def)
next
  case (Move player)
  then show ?thesis using assms
    by (cases p) (auto simp: new_closure_def enqueueMoveOnce_def Let_def split_beta
        split: option.split)
next
  case Tick
  show ?thesis
  proof (cases "microtasks w")
    case Nil then show ?thesis using assms by (simp add: Tick)
  next
    case (Cons j js)
    have "state_of (w\<lparr>microtasks := js\<rparr>) p = Settled out"
      "allocated (w\<lparr>microtasks := js\<rparr>) p"
      using assms by (cases p; simp)+
    then show ?thesis
      by (simp add: Tick Cons run_job_settled del: run_job.simps)
  qed
next
  case (Settle i out')
  then show ?thesis using assms by auto
qed

lemma run_Cons [simp]: "run (ev # evs) w = run evs (step ev w)"
  by (simp add: run_def)

lemma run_Nil [simp]: "run [] w = w"
  by (simp add: run_def)

lemma run_queue_log: "prefix (queue_log w) (queue_log (run evs w))"
proof (induction evs arbitrary: w)
  case Nil show ?case by simp
next
  case (Cons ev evs)
  show ?case
    using prefix_order.trans [OF step_queue_log Cons.IH] by simp
qed

lemma run_calls: "prefix (calls w) (calls (run evs w))"
proof (induction evs arbitrary: w)
  case Nil show ?case by simp
next
  case (Cons ev evs)
  show ?case
    using prefix_order.trans [OF step_calls Cons.IH] by simp
qed

lemma run_settled:
  assumes "state_of w p = Settled out" and "allocated w p"
  shows "state_of (run evs w) p = Settled out"
  using assms
proof (induction evs arbitrary: w)
  case Nil then show ?case by simp
next
  case (Cons ev evs)
  have "allocated (step ev w) p"
    using allocated_mono [OF Cons.prems(2) step_queue_log step_calls] .
  then show ?case
    using Cons.IH [OF step_settled [OF Cons.prems]] by simp
qed

subsection \<open>A callback is called once its predecessors have settled\<close>

lemma earlier_settled:
  assumes I: "inv w" and i: "i \<le> length (queue_log w)"
    and p: "state_of w (prev_of i) \<noteq> Pending" and j: "j < i"
  shows "j < length (calls w) \<and> state_of w (res_of w j) \<noteq> Pending \<and>
    state_of w (Ext j) \<noteq> Pending \<and> state_of w (Run j) = state_of w (Ext j)"
  using i p j
proof (induction i arbitrary: j)
  case 0 then show ?case by simp
next
  case (Suc i)
  note T = invD(2) [OF I]
  have i: "i < length (queue_log w)" using Suc.prems(1) by simp
  have t: "state_of w (Tail i) \<noteq> Pending" using Suc.prems(2) by simp
  have r: "state_of w (Run i) \<noteq> Pending" using inv_statesD(2) [OF T i t] .
  have k: "i < length (calls w)" using inv_statesD(3) [OF T i r] .
  have e: "state_of w (Run i) = state_of w (res_of w i)" using inv_statesD(4) [OF T i r] .
  have x: "state_of w (res_of w i) = state_of w (Ext i)"
    using inv_statesD(7) [OF T i k] r e by (auto simp: res_of_def)
  have pp: "state_of w (prev_of i) \<noteq> Pending" using inv_statesD(6) [OF T i k] .
  show ?case
  proof (cases "j = i")
    case True
    then show ?thesis using k e x r by simp
  next
    case False
    then have "j < i" using Suc.prems(3) by simp
    then show ?thesis using Suc.IH [OF _ pp] i by simp
  qed
qed

lemma called_in_order:
  assumes I: "inv w"
  shows "calls w = map task_of (take (length (calls w)) (queue_log w))"
proof (rule nth_equalityI)
  note S = invD(1) [OF I]
  show "length (calls w) = length (map task_of (take (length (calls w)) (queue_log w)))"
    using inv_structD(1) [OF S] by simp
  fix i assume "i < length (calls w)"
  then show "calls w ! i = map task_of (take (length (calls w)) (queue_log w)) ! i"
    using inv_structD(1) [OF S] inv_structD(4) [OF S] by simp
qed

lemma reaction_job_eq:
  assumes "ReactionJob cb v d = reaction_job out (Reaction f r d')"
  shows "(cb = f \<or> cb = r) \<and> d = d'"
  using assms by (cases out) simp_all

lemma call_begins:
  assumes I: "inv w" and c: "calls (step ev w) \<noteq> calls w"
  shows "length (calls w) < length (queue_log w) \<and>
    calls (step ev w) = calls w @ [task_of (queue_log w ! length (calls w))] \<and>
    (\<forall>j < length (calls w). state_of w (res_of w j) \<noteq> Pending \<and> state_of w (Ext j) \<noteq> Pending)"
proof (cases ev)
  case Enqueue then show ?thesis using c by (simp add: new_closure_def)
next
  case (Move player)
  then show ?thesis using c
    by (simp add: new_closure_def enqueueMoveOnce_def Let_def split_beta split: option.splits)
next
  case (Settle i out) then show ?thesis using c by (simp split: if_splits)
next
  case Tick
  note S = invD(1) [OF I] and T = invD(2) [OF I] and J = invD(4) [OF I]
  obtain j0 js where m: "microtasks w = j0 # js"
    using c Tick by (cases "microtasks w") auto
  have c': "calls (run_job j0 (w\<lparr>microtasks := js\<rparr>)) \<noteq> calls w"
    using c by (simp add: Tick m del: run_job.simps)
  then obtain cb v d where j0: "j0 = ReactionJob cb v d" and cb: "is_task cb"
    by (cases j0) (auto simp del: run_job.simps split: if_splits)
  obtain i where i: "i < length (queue_log w)" and e: "j0 \<in> entry_jobs w i"
    using head_job_entry [OF J m] by blast
  have "j0 \<in> start_jobs w i"
  proof -
    from e consider "j0 \<in> start_jobs w i" | "j0 \<in> tail_jobs w i"
      | "j0 \<in> follow_jobs w (Ret i) (Run i)" | "j0 \<in> run_jobs w i" | "j0 \<in> await_jobs w i"
      by (auto simp: entry_jobs_def)
    then show ?thesis
    proof cases
      case 2
      then obtain out where "j0 = reaction_job out (tailer i)"
        by (cases "state_of w (Run i)") (auto simp: tail_jobs_def split: if_splits)
      then have "ReactionJob cb v d =
          reaction_job out (Reaction ReturnUndefined ReturnUndefined (Some (Tail i)))"
        by (simp add: j0 tailer_def)
      from reaction_job_eq [OF this] cb show ?thesis by auto
    next
      case 3
      then show ?thesis using cb
      proof (cases rule: follow_jobs_cases)
        case adopt then show ?thesis by (simp add: j0)
      next
        case (settle out)
        then have "ReactionJob cb v d =
            reaction_job out (Reaction (ResolveWith (Ret i)) (RejectWith (Ret i)) None)"
          by (simp add: j0 follower_def)
        from reaction_job_eq [OF this] cb show ?thesis by auto
      qed
    next
      case 4
      then have "j0 \<in> follow_jobs w (Run i) (res_of w i)"
        by (auto simp: run_jobs_def split: if_splits)
      then show ?thesis using cb
      proof (cases rule: follow_jobs_cases)
        case adopt then show ?thesis by (simp add: j0)
      next
        case (settle out)
        then have "ReactionJob cb v d =
            reaction_job out (Reaction (ResolveWith (Run i)) (RejectWith (Run i)) None)"
          by (simp add: j0 follower_def)
        from reaction_job_eq [OF this] cb show ?thesis by auto
      qed
    next
      case 5
      then obtain out where "j0 = reaction_job out (awaiter (key_of (queue_log w ! i)) (Wrap i))"
        by (cases "state_of w (Ext i)") (auto simp: await_jobs_def split: if_splits)
      then have "ReactionJob cb v d =
          reaction_job out (Reaction (AfterAwait (key_of (queue_log w ! i)) (Wrap i))
            (AfterAwaitThrow (key_of (queue_log w ! i)) (Wrap i)) None)"
        by (simp add: j0 awaiter_def)
      from reaction_job_eq [OF this] cb show ?thesis by auto
    qed
  qed
  then obtain out where ki: "length (calls w) \<le> i"
    and ps: "state_of w (prev_of i) = Settled out"
    and j0': "j0 = reaction_job out (starter w i)"
    by (cases "state_of w (prev_of i)") (auto simp: start_jobs_def split: if_splits)
  have "i \<le> length (calls w)"
    using prev_settled_called [OF T i] ps by simp
  then have ik: "i = length (calls w)" using ki by simp
  have "ReactionJob cb v d =
      reaction_job out (Reaction (queue_log w ! i) (queue_log w ! i) (Some (Run i)))"
    using j0 j0' by (simp add: starter_def)
  from reaction_job_eq [OF this] have cbq: "cb = queue_log w ! i" by auto
  have "calls (step ev w) = calls w @ [task_of (queue_log w ! length (calls w))]"
    using cb by (simp add: Tick m j0 cbq ik [symmetric] del: run_job.simps)
  moreover have "\<forall>j < length (calls w). state_of w (res_of w j) \<noteq> Pending \<and>
      state_of w (Ext j) \<noteq> Pending"
    using earlier_settled [OF I _ _, of i] i ps ik by simp
  ultimately show ?thesis using i ik by simp
qed

section \<open>The queue: the microtask queue drains\<close>

lemma set_pids: "set (pids w) = {p. allocated w p}"
proof (rule set_eqI)
  fix p show "p \<in> set (pids w) \<longleftrightarrow> p \<in> {p. allocated w p}"
    by (cases p) (auto simp: pids_def)
qed

lemma distinct_concat_map:
  assumes "distinct xs" and "\<And>x. x \<in> set xs \<Longrightarrow> distinct (f x)"
    and "\<And>x y. x \<in> set xs \<Longrightarrow> y \<in> set xs \<Longrightarrow> x \<noteq> y \<Longrightarrow> set (f x) \<inter> set (f y) = {}"
  shows "distinct (concat (map f xs))"
  using assms by (induction xs) auto

lemma distinct_pids: "distinct (pids w)"
proof -
  have 1: "distinct (concat (map (\<lambda>i. [Ret i, Run i, Tail i]) [0..<n]))" for n
    by (rule distinct_concat_map) auto
  have 2: "distinct (concat (map (\<lambda>i. [Ext i, Wrap i]) [0..<k]))" for k
    by (rule distinct_concat_map) auto
  show ?thesis
    unfolding pids_def using 1 2 by auto
qed

lemma reactions_sum:
  "sum_list (map f (pids w)) = sum f {p. allocated w p}"
  using sum_list_distinct_conv_sum_set [OF distinct_pids, of f w] by (simp add: set_pids)

lemma finite_allocated: "finite {p. allocated w p}"
  using set_pids [of w, symmetric] by (metis List.finite_set)

lemma work_eq:
  "work w = sum_list (map job_weight (microtasks w)) + sum (reactions_weight w) {p. allocated w p}"
  by (simp add: work_def reactions_sum)

text \<open>The effect of a change of the reactions of one promise.\<close>

lemma sum_change_le:
  fixes f g :: "pid \<Rightarrow> nat"
  assumes "finite A" and "\<And>q. q \<noteq> p \<Longrightarrow> g q = f q" and "p \<in> A \<Longrightarrow> g p + d \<le> f p + c"
  shows "sum g A + (if p \<in> A then d else 0) \<le> sum f A + c"
proof (cases "p \<in> A")
  case True
  have "sum g A = g p + sum g (A - {p})" using assms(1) True by (rule sum.remove)
  moreover have "sum f A = f p + sum f (A - {p})" using assms(1) True by (rule sum.remove)
  moreover have "sum g (A - {p}) = sum f (A - {p})"
  proof (rule sum.cong)
    fix x assume "x \<in> A - {p}"
    then have "x \<noteq> p" by auto
    then show "g x = f x" by (rule assms(2))
  qed simp
  ultimately show ?thesis using assms(3) [OF True] True by simp
next
  case False
  have "sum g A = sum f A"
  proof (rule sum.cong)
    fix x assume "x \<in> A"
    then have "x \<noteq> p" using False by auto
    then show "g x = f x" by (rule assms(2))
  qed simp
  then show ?thesis using False by simp
qed

lemma reaction_job_weight: "job_weight (reaction_job out r) \<le> reaction_weight r"
  by (cases out; cases r) simp_all

lemma reaction_jobs_weight:
  "sum_list (map job_weight (map (reaction_job out) rs)) \<le> sum_list (map reaction_weight rs)"
  by (induction rs) (simp_all add: add_mono reaction_job_weight)

lemma inv_clean: "inv w \<Longrightarrow> clean w"
  unfolding clean_def
proof (intro allI impI)
  fix p assume I: "inv w" and a: "\<not> allocated w p"
  have "length (calls w) \<le> length (queue_log w)" using inv_structD(1) [OF invD(1) [OF I]] .
  then have "expected_reactions w p = []" using a by (cases p) auto
  then show "reacts_of w p = []" using inv_reactsD [OF invD(3) [OF I]] by simp
qed

lemma allocated_cong:
  assumes "queue_log w' = queue_log w" and "calls w' = calls w"
  shows "{p. allocated w' p} = {p. allocated w p}"
proof (rule Collect_cong)
  fix p show "allocated w' p = allocated w p"
    using assms by (cases p) simp_all
qed

lemma work_settle:
  assumes "clean w"
  shows "work (settle p out w) \<le> work w"
proof (cases "state_of w p")
  case Pending
  define w' where "w' = settle p out w"
  define A where "A = {q. allocated w q}"
  have A: "{q. allocated w' q} = A"
    unfolding w'_def A_def by (rule allocated_cong) simp_all
  have fin: "finite A" unfolding A_def by (rule finite_allocated)
  have r1: "reactions_weight w' q = reactions_weight w q" if "q \<noteq> p" for q
    using that by (simp add: reactions_weight_def Pending w'_def)
  have r2: "reactions_weight w' p = 0"
    by (simp add: reactions_weight_def Pending w'_def)
  have "sum (reactions_weight w') A + (if p \<in> A then reactions_weight w p else 0) \<le>
      sum (reactions_weight w) A + 0"
  proof (rule sum_change_le [OF fin])
    show "reactions_weight w' q = reactions_weight w q" if "q \<noteq> p" for q
      using that by (rule r1)
    show "reactions_weight w' p + reactions_weight w p \<le> reactions_weight w p + 0"
      by (simp add: r2)
  qed
  moreover have "reactions_weight w p = 0" if "p \<notin> A"
    using assms that by (simp add: clean_def reactions_weight_def A_def)
  ultimately have 1: "sum (reactions_weight w') A + reactions_weight w p \<le>
      sum (reactions_weight w) A"
    by (cases "p \<in> A") simp_all
  have m: "microtasks w' = microtasks w @ map (reaction_job out) (reacts_of w p)"
    by (simp add: Pending w'_def)
  have 2: "sum_list (map job_weight (microtasks w')) \<le>
      sum_list (map job_weight (microtasks w)) + reactions_weight w p"
    unfolding m reactions_weight_def
    using reaction_jobs_weight [of out "reacts_of w p"] by simp
  have "work w' = sum_list (map job_weight (microtasks w')) + sum (reactions_weight w') A"
    unfolding work_eq A ..
  moreover have "work w = sum_list (map job_weight (microtasks w)) + sum (reactions_weight w) A"
    unfolding work_eq A_def ..
  ultimately show ?thesis
    unfolding w'_def [symmetric] using 1 2 by linarith
next
  case (Settled x)
  then show ?thesis by (simp add: settle_settled)
qed


lemma work_perform_then:
  "work (perform_then q r w) \<le> work w + reaction_weight r"
proof -
  let ?w = "perform_then q r w"
  have A: "{p. allocated ?w p} = {p. allocated w p}"
    by (rule allocated_cong) simp_all
  show ?thesis
  proof (cases "state_of w q")
    case Pending
    have r: "reactions_weight ?w p =
        (if p = q then reactions_weight w q + reaction_weight r else reactions_weight w p)" for p
      by (simp add: reactions_weight_def Pending)
    have "sum (reactions_weight ?w) {q. allocated w q} +
        (if q \<in> {q. allocated w q} then 0 else 0) \<le>
        sum (reactions_weight w) {q. allocated w q} + reaction_weight r"
      by (rule sum_change_le [OF finite_allocated]) (simp_all add: r)
    then show ?thesis
      unfolding work_eq A by (simp add: Pending)
  next
    case (Settled out)
    have r: "reactions_weight ?w = reactions_weight w"
      by (simp add: reactions_weight_def fun_eq_iff Settled)
    show ?thesis
      unfolding work_eq A r using reaction_job_weight [of out r] by (simp add: Settled)
  qed
qed

lemma work_schedule: "work (schedule j w) = work w + job_weight j"
proof -
  have A: "{p. allocated (schedule j w) p} = {p. allocated w p}"
    by (rule allocated_cong) simp_all
  have r: "reactions_weight (schedule j w) = reactions_weight w"
    by (simp add: reactions_weight_def fun_eq_iff)
  show ?thesis unfolding work_eq A r by simp
qed

lemma work_new_promise: "work (snd (new_promise a w)) \<le> work w"
proof -
  let ?w = "snd (new_promise a w)"
  have A: "{p. allocated ?w p} = {p. allocated w p}"
    by (rule allocated_cong) simp_all
  have r: "reactions_weight ?w p = (if p = a then 0 else reactions_weight w p)" for p
    by (simp add: reactions_weight_def)
  have "sum (reactions_weight ?w) {q. allocated w q} +
      (if a \<in> {q. allocated w q} then 0 else 0) \<le>
      sum (reactions_weight w) {q. allocated w q} + 0"
    by (rule sum_change_le [OF finite_allocated]) (simp_all add: r)
  then show ?thesis
    unfolding work_eq A by simp
qed

lemma clean_settle: "clean w \<Longrightarrow> clean (settle p out w)"
  unfolding clean_def
proof (intro allI impI)
  fix q assume c: "\<forall>p. \<not> allocated w p \<longrightarrow> reacts_of w p = []"
    and a: "\<not> allocated (settle p out w) q"
  have "{p'. allocated (settle p out w) p'} = {p'. allocated w p'}"
    by (rule allocated_cong) simp_all
  then have "\<not> allocated w q" using a by blast
  then show "reacts_of (settle p out w) q = []" using c by simp
qed

lemma work_moveInFlight [simp]: "work (w\<lparr>moveInFlight := m\<rparr>) = work w"
proof -
  have A: "{p. allocated (w\<lparr>moveInFlight := m\<rparr>) p} = {p. allocated w p}"
    by (rule allocated_cong) simp_all
  have r: "reactions_weight (w\<lparr>moveInFlight := m\<rparr>) = reactions_weight w"
    by (simp add: reactions_weight_def fun_eq_iff)
  show ?thesis unfolding work_eq A r by simp
qed

lemma clean_moveInFlight [simp]: "clean (w\<lparr>moveInFlight := m\<rparr>) = clean w"
proof -
  have "{p. allocated (w\<lparr>moveInFlight := m\<rparr>) p} = {p. allocated w p}"
    by (rule allocated_cong) simp_all
  then have "allocated (w\<lparr>moveInFlight := m\<rparr>) p = allocated w p" for p by blast
  then show ?thesis by (simp add: clean_def)
qed

lemma work_pop:
  assumes "microtasks w = j # js"
  shows "work (w\<lparr>microtasks := js\<rparr>) + job_weight j = work w"
proof -
  have A: "{p. allocated (w\<lparr>microtasks := js\<rparr>) p} = {p. allocated w p}"
    by (rule allocated_cong) simp_all
  have r: "reactions_weight (w\<lparr>microtasks := js\<rparr>) = reactions_weight w"
    by (simp add: reactions_weight_def fun_eq_iff)
  show ?thesis unfolding work_eq A r by (simp add: assms)
qed

lemma clean_pop [simp]: "clean (w\<lparr>microtasks := js\<rparr>) = clean w"
proof -
  have "{p. allocated (w\<lparr>microtasks := js\<rparr>) p} = {p. allocated w p}"
    by (rule allocated_cong) simp_all
  then have "allocated (w\<lparr>microtasks := js\<rparr>) p = allocated w p" for p by blast
  then show ?thesis by (simp add: clean_def)
qed

lemma allocated_called:
  "{p. allocated (w\<lparr>calls := calls w @ [t]\<rparr>) p} =
     insert (Ext (length (calls w))) (insert (Wrap (length (calls w))) {p. allocated w p})"
proof (rule set_eqI)
  fix p
  show "p \<in> {p. allocated (w\<lparr>calls := calls w @ [t]\<rparr>) p} \<longleftrightarrow>
      p \<in> insert (Ext (length (calls w))) (insert (Wrap (length (calls w))) {p. allocated w p})"
    by (cases p) (auto simp: less_Suc_eq)
qed

lemma work_called:
  "work (w\<lparr>calls := calls w @ [t]\<rparr>) =
     work w + reactions_weight w (Ext (length (calls w))) +
     reactions_weight w (Wrap (length (calls w)))"
proof -
  have r: "reactions_weight (w\<lparr>calls := calls w @ [t]\<rparr>) = reactions_weight w"
    by (simp add: reactions_weight_def fun_eq_iff)
  have n: "Ext (length (calls w)) \<notin> insert (Wrap (length (calls w))) {p. allocated w p}"
    "Wrap (length (calls w)) \<notin> {p. allocated w p}"
    by simp_all
  have f: "finite (insert (Wrap (length (calls w))) {p. allocated w p})"
    "finite {p. allocated w p}"
    using finite_allocated by simp_all
  show ?thesis
    unfolding work_eq allocated_called r
    by (simp only: sum.insert [OF f(1) n(1)] sum.insert [OF f(2) n(2)]) simp
qed

lemma work_call_cb:
  assumes "clean w"
  shows "work (snd (call_cb cb v w)) \<le> work w + (if is_move cb then 1 else 0)"
    and "case fst (call_cb cb v w) of Return x \<Rightarrow> clean (snd (call_cb cb v w))
      | ReturnPromise q \<Rightarrow> is_task cb"
proof -
  define k where "k = length (calls w)"
  show "case fst (call_cb cb v w) of Return x \<Rightarrow> clean (snd (call_cb cb v w))
      | ReturnPromise q \<Rightarrow> is_task cb"
    using assms by (cases cb) (simp_all add: Let_def split_beta clean_settle)
  show "work (snd (call_cb cb v w)) \<le> work w + (if is_move cb then 1 else 0)"
  proof (cases cb)
    case (Task t)
    define w1 where "w1 = snd (new_promise (Ext k) w)"
    have 1: "work w1 \<le> work w" unfolding w1_def by (rule work_new_promise)
    have 2: "reactions_weight w1 (Ext k) = 0" "reactions_weight w1 (Wrap k) = 0"
      using assms by (simp_all add: w1_def reactions_weight_def clean_def k_def)
    have "snd (call_cb cb v w) = w1\<lparr>calls := calls w1 @ [t]\<rparr>"
      by (simp add: Task Let_def split_beta w1_def k_def)
    moreover have "length (calls w1) = k" by (simp add: w1_def k_def)
    ultimately have "work (snd (call_cb cb v w)) = work w1"
      using work_called [of w1 t] 2 by simp
    then show ?thesis using 1 by (simp add: Task)
  next
    case (MoveTask key t)
    define w1 where "w1 = snd (new_promise (Wrap k) w)"
    define w2 where "w2 = snd (new_promise (Ext k) w1)"
    define w3 where "w3 = w2\<lparr>calls := calls w2 @ [t]\<rparr>"
    have 1: "work w2 \<le> work w"
      unfolding w1_def w2_def using work_new_promise [of "Wrap k" w]
        work_new_promise [of "Ext k" "snd (new_promise (Wrap k) w)"] by linarith
    have 2: "reactions_weight w2 (Ext k) = 0" "reactions_weight w2 (Wrap k) = 0"
      by (simp_all add: w1_def w2_def reactions_weight_def)
    have "length (calls w2) = k" by (simp add: w1_def w2_def k_def)
    then have 3: "work w3 = work w2"
      using work_called [of w2 t] 2 by (simp add: w3_def)
    have "snd (call_cb cb v w) =
        perform_then (Ext k) (Reaction (AfterAwait key (Wrap k)) (AfterAwaitThrow key (Wrap k)) None) w3"
      by (simp add: MoveTask Let_def split_beta w1_def w2_def w3_def k_def)
    then have "work (snd (call_cb cb v w)) \<le> work w3 + 1"
      using work_perform_then [of "Ext k"
          "Reaction (AfterAwait key (Wrap k)) (AfterAwaitThrow key (Wrap k)) None" w3]
      by simp
    then show ?thesis using 1 3 by (simp add: MoveTask)
  next
    case ReturnUndefined
    then show ?thesis by simp
  next
    case (ResolveWith p)
    then show ?thesis using work_settle [OF assms, of p "Fulfilled v"] by simp
  next
    case (RejectWith p)
    then show ?thesis using work_settle [OF assms, of p "Rejected v"] by simp
  next
    case (AfterAwait key W)
    have "clean (w\<lparr>moveInFlight := (moveInFlight w)(key := None)\<rparr>)" using assms by simp
    from work_settle [OF this, of W "Fulfilled v"] show ?thesis by (simp add: AfterAwait)
  next
    case (AfterAwaitThrow key W)
    have "clean (w\<lparr>moveInFlight := (moveInFlight w)(key := None)\<rparr>)" using assms by simp
    from work_settle [OF this, of W "Rejected v"] show ?thesis by (simp add: AfterAwaitThrow)
  qed
qed

lemma work_run_job:
  assumes "clean w"
  shows "work (run_job j w) + 1 \<le> work w + job_weight j"
proof (cases j)
  case (ReactionJob cb v d)
  define c where "c = fst (call_cb cb v w)"
  define w1 where "w1 = snd (call_cb cb v w)"
  note 1 = work_call_cb(1) [OF assms, of cb v, folded w1_def]
  note 2 = work_call_cb(2) [OF assms, of cb v, folded w1_def c_def]
  have r: "run_job j w = (case d of None \<Rightarrow> w1 | Some dp \<Rightarrow> resolve_derived dp c w1)"
    by (cases d) (simp_all add: ReactionJob split_beta w1_def c_def)
  have 3: "work (case d of None \<Rightarrow> w1 | Some dp \<Rightarrow> resolve_derived dp c w1) \<le>
      work w1 + (if is_task cb then 2 else 0)"
  proof (cases d)
    case None then show ?thesis by simp
  next
    case (Some dp)
    show ?thesis
    proof (cases c)
      case (Return x)
      then have "clean w1" using 2 by simp
      then show ?thesis using work_settle [of w1 dp "Fulfilled x"] by (simp add: Some Return)
    next
      case (ReturnPromise q)
      then have "is_task cb" using 2 by simp
      then show ?thesis
        by (simp add: Some ReturnPromise resolve_thenable_def work_schedule)
    qed
  qed
  have 4: "(if is_move cb then 1 else 0) + (if is_task cb then 2 else 0) + (1::nat) \<le>
      callback_weight cb"
    by (cases cb) simp_all
  show ?thesis
    unfolding r using 1 3 4 by (simp add: ReactionJob)
next
  case (ResolveThenableJob p q)
  then show ?thesis
    using work_perform_then [of q "Reaction (ResolveWith p) (RejectWith p) None" w] by simp
qed

lemma work_tick:
  assumes "inv w" and "microtasks w \<noteq> []"
  shows "work (step Tick w) < work w"
proof -
  obtain j js where m: "microtasks w = j # js"
    using assms(2) by (cases "microtasks w") auto
  have "clean (w\<lparr>microtasks := js\<rparr>)" using inv_clean [OF assms(1)] by simp
  from work_run_job [OF this, of j] work_pop [OF m]
  show ?thesis by (simp add: m del: run_job.simps)
qed

lemma ticks_Suc: "run (replicate (Suc n) Tick) w = run (replicate n Tick) (step Tick w)"
  by simp

lemma ticks_inv: "inv w \<Longrightarrow> inv (run (replicate n Tick) w)"
  by (rule run_inv)

lemma drain:
  assumes "inv w"
  shows "\<exists>n. microtasks (run (replicate n Tick) w) = []"
  using assms
proof (induction "work w" arbitrary: w rule: less_induct)
  case less
  show ?case
  proof (cases "microtasks w")
    case Nil
    then have "microtasks (run (replicate 0 Tick) w) = []" by simp
    then show ?thesis by blast
  next
    case (Cons j js)
    then have "work (step Tick w) < work w" using work_tick [OF less.prems] by simp
    moreover have "inv (step Tick w)" using less.prems by (rule step_inv)
    ultimately obtain n where "microtasks (run (replicate n Tick) (step Tick w)) = []"
      using less.hyps by blast
    then have "microtasks (run (replicate (Suc n) Tick) w) = []" by simp
    then show ?thesis by blast
  qed
qed

subsection \<open>The states with an empty microtask queue\<close>

lemma quiet_entry:
  assumes I: "inv w" and q: "microtasks w = []" and i: "i < length (queue_log w)"
  shows "entry_jobs w i = {}"
proof -
  have "(\<Union>i < length (queue_log w). entry_jobs w i) = {}"
    using invD(4) [OF I] q by (simp add: inv_jobs_def)
  then show ?thesis using i by blast
qed

lemma quiet_not_adopting: "microtasks w = [] \<Longrightarrow> \<not> adopting w p q"
  by (simp add: adopting_def)

lemma quiet_follow:
  assumes q: "microtasks w = []" and f: "follow_jobs w p p' = {}"
    and s: "state_of w p' = Settled out"
  shows "state_of w p \<noteq> Pending"
  using f s quiet_not_adopting [OF q, of p p']
  by (auto simp: follow_jobs_def split: if_splits)

lemma quiet_step:
  assumes I: "inv w" and q: "microtasks w = []" and i: "i < length (queue_log w)"
    and p: "state_of w (prev_of i) \<noteq> Pending" and e: "state_of w (Ext i) = Settled out"
  shows "i < length (calls w)" and "state_of w (Run i) = Settled out"
    and "state_of w (Ret i) = Settled out" and "state_of w (Tail i) \<noteq> Pending"
    and "is_move (queue_log w ! i) \<Longrightarrow> state_of w (Wrap i) = Settled out"
proof -
  note T = invD(2) [OF I]
  have E: "entry_jobs w i = {}" using quiet_entry [OF I q i] .
  then have s: "start_jobs w i = {}" and t: "tail_jobs w i = {}"
    and f: "follow_jobs w (Ret i) (Run i) = {}" and r: "run_jobs w i = {}"
    and a: "await_jobs w i = {}"
    by (simp_all add: entry_jobs_def)
  show k: "i < length (calls w)"
    using s p by (cases "state_of w (prev_of i)") (auto simp: start_jobs_def split: if_splits)
  have wr: "state_of w (Wrap i) \<noteq> Pending" if "is_move (queue_log w ! i)"
    using a k that e by (auto simp: await_jobs_def split: if_splits)
  show wr': "state_of w (Wrap i) = Settled out" if "is_move (queue_log w ! i)"
    using inv_statesD(7) [OF T i k that wr [OF that]] e by simp
  have res: "state_of w (res_of w i) = Settled out"
    using wr' e by (simp add: res_of_def)
  have "follow_jobs w (Run i) (res_of w i) = {}"
    using r k by (simp add: run_jobs_def)
  from quiet_follow [OF q this res] have rp: "state_of w (Run i) \<noteq> Pending" .
  show run: "state_of w (Run i) = Settled out"
    using inv_statesD(4) [OF T i rp] res by simp
  from quiet_follow [OF q f run] have "state_of w (Ret i) \<noteq> Pending" .
  then show "state_of w (Ret i) = Settled out"
    using inv_statesD(5) [OF T i] run by simp
  show "state_of w (Tail i) \<noteq> Pending"
    using t run by (auto simp: tail_jobs_def split: if_splits)
qed

lemma quiet_chain:
  assumes I: "inv w" and q: "microtasks w = []" and i: "i \<le> length (queue_log w)"
    and h: "\<forall>j<i. state_of w (Ext j) \<noteq> Pending"
  shows "state_of w (prev_of i) \<noteq> Pending"
  using i h
proof (induction i)
  case 0
  then show ?case using inv_states_Initial [OF invD(2) [OF I]] by simp
next
  case (Suc i)
  have p: "state_of w (prev_of i) \<noteq> Pending" using Suc by simp
  have i: "i < length (queue_log w)" using Suc.prems(1) by simp
  obtain out where e: "state_of w (Ext i) = Settled out"
    using Suc.prems(2) by (cases "state_of w (Ext i)") auto
  show ?case using quiet_step(4) [OF I q i p e] by simp
qed

lemma quiet_called:
  assumes I: "inv w" and q: "microtasks w = []" and i: "i < length (queue_log w)"
    and h: "\<forall>j<i. state_of w (Ext j) \<noteq> Pending"
  shows "i < length (calls w)"
proof -
  have p: "state_of w (prev_of i) \<noteq> Pending"
    using quiet_chain [OF I q _ h] i by simp
  have "start_jobs w i = {}" using quiet_entry [OF I q i] by (simp add: entry_jobs_def)
  then show ?thesis
    using p by (cases "state_of w (prev_of i)") (auto simp: start_jobs_def split: if_splits)
qed

lemma quiet_settled:
  assumes I: "inv w" and q: "microtasks w = []" and k: "i < length (calls w)"
    and e: "state_of w (Ext i) = Settled out"
  shows "state_of w (Ret i) = Settled out"
    and "is_move (queue_log w ! i) \<Longrightarrow> state_of w (Wrap i) = Settled out"
proof -
  have i: "i < length (queue_log w)" using k inv_structD(1) [OF invD(1) [OF I]] by simp
  have p: "state_of w (prev_of i) \<noteq> Pending" using inv_statesD(6) [OF invD(2) [OF I] i k] .
  show "state_of w (Ret i) = Settled out" using quiet_step(3) [OF I q i p e] .
  show "is_move (queue_log w ! i) \<Longrightarrow> state_of w (Wrap i) = Settled out"
    using quiet_step(5) [OF I q i p e] .
qed

lemma returned_outcome:
  assumes I: "inv w" and i: "i < length (queue_log w)" and r: "state_of w (Ret i) \<noteq> Pending"
  shows "i < length (calls w) \<and> state_of w (Ret i) = state_of w (Ext i)"
proof -
  note T = invD(2) [OF I]
  have 1: "state_of w (Ret i) = state_of w (Run i)" using inv_statesD(5) [OF T i r] .
  then have rp: "state_of w (Run i) \<noteq> Pending" using r by simp
  have k: "i < length (calls w)" using inv_statesD(3) [OF T i rp] .
  have 2: "state_of w (Run i) = state_of w (res_of w i)" using inv_statesD(4) [OF T i rp] .
  have "state_of w (res_of w i) = state_of w (Ext i)"
    using inv_statesD(7) [OF T i k] rp 2 by (auto simp: res_of_def)
  then show ?thesis using k 1 2 by simp
qed

lemma prefix_nth:
  assumes "prefix xs ys" and "i < length xs"
  shows "ys ! i = xs ! i"
  using assms by (auto simp: prefix_def nth_append)

subsection \<open>The live entries of the table\<close>

lemma ticks_queue_log: "queue_log (run (replicate n Tick) w) = queue_log w"
proof (induction n arbitrary: w)
  case 0 show ?case by simp
next
  case (Suc n)
  have "queue_log (step Tick w) = queue_log w"
    by (cases "microtasks w") simp_all
  then show ?case using Suc [of "step Tick w"] by simp
qed

lemma live_unique:
  assumes M: "inv_table w" and i: "live_move w key i" and j: "live_move w key j"
  shows "i = j"
proof -
  have "moveInFlight w key = Some (Ret i)"
    using M i unfolding inv_table_def live_move_def by blast
  moreover have "moveInFlight w key = Some (Ret j)"
    using M j unfolding inv_table_def live_move_def by blast
  ultimately show ?thesis by simp
qed

lemma table_live:
  assumes M: "inv_table w"
  shows "moveInFlight w key = Some h \<longleftrightarrow> (\<exists>i. live_move w key i \<and> h = Ret i)"
proof
  assume "moveInFlight w key = Some h"
  then show "\<exists>i. live_move w key i \<and> h = Ret i"
    using M unfolding inv_table_def by blast
next
  assume "\<exists>i. live_move w key i \<and> h = Ret i"
  then obtain i where "live_move w key i" "h = Ret i" by blast
  then show "moveInFlight w key = Some h"
    using M unfolding inv_table_def live_move_def by blast
qed

lemma live_after:
  assumes l: "live_move (run evs w) key j" and q: "queue_log (run evs w) = queue_log w"
  shows "live_move w key j"
proof (rule ccontr)
  assume n: "\<not> live_move w key j"
  have j: "j < length (queue_log w)" "is_move (queue_log w ! j)" "key_of (queue_log w ! j) = key"
    using l q by (simp_all add: live_move_def)
  then have k: "j < length (calls w)" and s: "state_of w (Wrap j) \<noteq> Pending"
    using n by (simp_all add: live_move_def)
  obtain out where "state_of w (Wrap j) = Settled out"
    using s by (cases "state_of w (Wrap j)") auto
  then have "state_of (run evs w) (Wrap j) = Settled out"
    using k by (intro run_settled) simp_all
  moreover have "j < length (calls (run evs w))"
    using k prefix_length_le [OF run_calls [of w evs]] by simp
  ultimately show False using l by (simp add: live_move_def)
qed

section \<open>The queue: order, progress and the table of moves\<close>

text \<open>
  Claim C1. Take any interleaving of calls of \<open>enqueue\<close>, move requests, microtask steps and
  settlements of the promises returned by the tasks (the events of \<open>run\<close>), and the state
  \<open>w\<close> that it reaches. The tasks called so far are the first tasks enqueued, in the order
  in which they were enqueued. Every called task but the last has settled, fulfilled or
  rejected, the promise of the task itself and that of the callback given to \<open>enqueue\<close>, so
  at most one task is running. And a step that calls a task calls the oldest task not yet
  called, and is taken in a state where every task called before has settled.
\<close>

theorem enqueue_fifo:
  "let w = run evs initial in
     calls w = map task_of (take (length (calls w)) (queue_log w)) \<and>
     (\<forall>i j. i < j \<and> j < length (calls w) \<longrightarrow>
        state_of w (res_of w i) \<noteq> Pending \<and> state_of w (Ext i) \<noteq> Pending) \<and>
     (\<forall>ev. calls (step ev w) \<noteq> calls w \<longrightarrow>
        length (calls w) < length (queue_log w) \<and>
        calls (step ev w) = calls w @ [task_of (queue_log w ! length (calls w))] \<and>
        (\<forall>i < length (calls w).
           state_of w (res_of w i) \<noteq> Pending \<and> state_of w (Ext i) \<noteq> Pending))"
proof -
  define w where "w = run evs initial"
  have I: "inv w" unfolding w_def by (rule run_initial_inv)
  note S = invD(1) [OF I] and T = invD(2) [OF I]
  have 1: "calls w = map task_of (take (length (calls w)) (queue_log w))"
    using called_in_order [OF I] .
  have 2: "state_of w (res_of w i) \<noteq> Pending \<and> state_of w (Ext i) \<noteq> Pending"
    if "i < j" "j < length (calls w)" for i j
  proof -
    have j: "j < length (queue_log w)" using that(2) inv_structD(1) [OF S] by simp
    have "state_of w (prev_of j) \<noteq> Pending" using inv_statesD(6) [OF T j that(2)] .
    then show ?thesis using earlier_settled [OF I _ _ that(1)] j by simp
  qed
  have 3: "length (calls w) < length (queue_log w) \<and>
        calls (step ev w) = calls w @ [task_of (queue_log w ! length (calls w))] \<and>
        (\<forall>i < length (calls w).
           state_of w (res_of w i) \<noteq> Pending \<and> state_of w (Ext i) \<noteq> Pending)"
    if "calls (step ev w) \<noteq> calls w" for ev
    using call_begins [OF I that] .
  show ?thesis
    unfolding w_def [symmetric] Let_def using 1 2 3 by blast
qed

theorem enqueue_fifo_witness:
  "calls (step Tick (run [Enqueue, Enqueue, Tick, Tick, Tick, Tick,
      Settle 0 (Rejected (Val 1)), Tick, Tick, Tick] initial)) = [0, 1] \<and>
   calls (run [Enqueue, Enqueue, Tick, Tick, Tick, Tick,
      Settle 0 (Rejected (Val 1)), Tick, Tick, Tick] initial) = [0] \<and>
   state_of (run [Enqueue, Enqueue, Tick, Tick, Tick, Tick,
      Settle 0 (Rejected (Val 1)), Tick, Tick, Tick] initial) (Ext 0) \<noteq> Pending"
proof -
  define w where "w = run [Enqueue, Enqueue, Tick, Tick, Tick, Tick,
      Settle 0 (Rejected (Val 1)), Tick, Tick, Tick] initial"
  have a: "calls (step Tick w) = [0, 1]"
    unfolding w_def by code_simp
  have b: "calls w = [0]"
    unfolding w_def by code_simp
  have c: "calls (step Tick w) \<noteq> calls w \<longrightarrow>
      (\<forall>i < length (calls w). state_of w (Ext i) \<noteq> Pending)"
    using enqueue_fifo [of "[Enqueue, Enqueue, Tick, Tick, Tick, Tick,
      Settle 0 (Rejected (Val 1)), Tick, Tick, Tick]", folded w_def]
    unfolding Let_def by blast
  have "state_of w (Ext 0) \<noteq> Pending"
    using a b c by simp
  then show ?thesis
    using a b unfolding w_def by blast
qed

text \<open>
  Claim C6. In the state \<open>w\<close> reached by any interleaving of events, \<open>enqueue\<close> returns
  the promise \<open>Ret\<close> of the new entry. A returned promise that has settled has the
  outcome of the promise of its own task, which was called. And the microtask queue can be
  run (\<open>n\<close> steps) to a state \<open>w'\<close> where: for every task that was called and has settled
  in \<open>w\<close>, fulfilled or rejected alike, the task enqueued after it has been called; and
  the promise returned by \<open>enqueue\<close> for a task that has settled in \<open>w\<close> has settled with
  that outcome.
\<close>

theorem failing_task_does_not_block:
  "let w = run evs initial in
     (\<forall>fn. fst (enqueue fn w) = Ret (length (queue_log w))) \<and>
     (\<forall>i < length (queue_log w). state_of w (Ret i) \<noteq> Pending \<longrightarrow>
        i < length (calls w) \<and> state_of w (Ret i) = state_of w (Ext i)) \<and>
     (\<exists>n. let w' = run (replicate n Tick) w in
        (\<forall>i. Suc i < length (queue_log w) \<and> i < length (calls w) \<and>
           state_of w (Ext i) \<noteq> Pending \<longrightarrow>
           Suc i < length (calls w') \<and> calls w' ! Suc i = task_of (queue_log w ! Suc i)) \<and>
        (\<forall>i out. i < length (calls w) \<and> state_of w (Ext i) = Settled out \<longrightarrow>
           state_of w' (Ret i) = Settled out))"
proof -
  define w where "w = run evs initial"
  have I: "inv w" unfolding w_def by (rule run_initial_inv)
  note S = invD(1) [OF I] and T = invD(2) [OF I]
  have 1: "fst (enqueue fn w) = Ret (length (queue_log w))" for fn by simp
  have 2: "i < length (calls w) \<and> state_of w (Ret i) = state_of w (Ext i)"
    if "i < length (queue_log w)" "state_of w (Ret i) \<noteq> Pending" for i
    using returned_outcome [OF I that] .
  obtain n where q: "microtasks (run (replicate n Tick) w) = []"
    using drain [OF I] by blast
  define w' where "w' = run (replicate n Tick) w"
  have I': "inv w'" unfolding w'_def using I by (rule run_inv)
  have q': "microtasks w' = []" using q by (simp add: w'_def)
  have pq: "prefix (queue_log w) (queue_log w')" unfolding w'_def by (rule run_queue_log)
  have pc: "prefix (calls w) (calls w')" unfolding w'_def by (rule run_calls)
  have keep: "state_of w' (Ext j) = Settled out"
    if "j < length (calls w)" "state_of w (Ext j) = Settled out" for j out
    unfolding w'_def using that by (intro run_settled) simp_all
  have 3: "Suc i < length (calls w') \<and> calls w' ! Suc i = task_of (queue_log w ! Suc i)"
    if a: "Suc i < length (queue_log w)" and k: "i < length (calls w)"
      and e: "state_of w (Ext i) \<noteq> Pending" for i
  proof -
    have i: "i < length (queue_log w)" using a by simp
    have p: "state_of w (prev_of i) \<noteq> Pending" using inv_statesD(6) [OF T i k] .
    have "state_of w' (Ext j) \<noteq> Pending" if "j < Suc i" for j
    proof (cases "j = i")
      case True
      obtain out where "state_of w (Ext i) = Settled out"
        using e by (cases "state_of w (Ext i)") auto
      from keep [OF k this] show ?thesis by (simp add: True)
    next
      case False
      then have ji: "j < i" using that by simp
      from earlier_settled [OF I _ p ji] i
      have "j < length (calls w)" "state_of w (Ext j) \<noteq> Pending" by simp_all
      then obtain out where "j < length (calls w)" "state_of w (Ext j) = Settled out"
        by (cases "state_of w (Ext j)") auto
      from keep [OF this] show ?thesis by simp
    qed
    then have h: "\<forall>j<Suc i. state_of w' (Ext j) \<noteq> Pending" by blast
    have a': "Suc i < length (queue_log w')"
      using a prefix_length_le [OF pq] by simp
    have c: "Suc i < length (calls w')" using quiet_called [OF I' q' a' h] .
    have "calls w' ! Suc i = task_of (queue_log w' ! Suc i)"
      using inv_structD(4) [OF invD(1) [OF I'] c] .
    then show ?thesis using c prefix_nth [OF pq a] by simp
  qed
  have 4: "state_of w' (Ret i) = Settled out"
    if "i < length (calls w)" "state_of w (Ext i) = Settled out" for i out
  proof -
    have "i < length (calls w')" using that(1) prefix_length_le [OF pc] by simp
    then show ?thesis using quiet_settled(1) [OF I' q' _ keep [OF that]] by simp
  qed
  have "\<exists>n. let w' = run (replicate n Tick) w in
        (\<forall>i. Suc i < length (queue_log w) \<and> i < length (calls w) \<and>
           state_of w (Ext i) \<noteq> Pending \<longrightarrow>
           Suc i < length (calls w') \<and> calls w' ! Suc i = task_of (queue_log w ! Suc i)) \<and>
        (\<forall>i out. i < length (calls w) \<and> state_of w (Ext i) = Settled out \<longrightarrow>
           state_of w' (Ret i) = Settled out)"
    unfolding Let_def w'_def [symmetric]
    by (rule exI [of _ n]) (use 3 4 in \<open>unfold w'_def [symmetric], blast\<close>)
  then show ?thesis
    unfolding w_def [symmetric] Let_def using 1 2 unfolding Let_def by blast
qed

theorem failing_task_does_not_block_witness:
  "state_of (run [Enqueue, Enqueue, Tick, Tick, Tick, Tick, Settle 0 (Rejected (Val 1))] initial)
      (Ext 0) = Settled (Rejected (Val 1)) \<and>
   calls (run [Enqueue, Enqueue, Tick, Tick, Tick, Tick, Settle 0 (Rejected (Val 1))] initial) = [0] \<and>
   (\<exists>n. calls (run (replicate n Tick)
        (run [Enqueue, Enqueue, Tick, Tick, Tick, Tick, Settle 0 (Rejected (Val 1))] initial)) !
        Suc 0 = 1 \<and>
      state_of (run (replicate n Tick)
        (run [Enqueue, Enqueue, Tick, Tick, Tick, Tick, Settle 0 (Rejected (Val 1))] initial))
        (Ret 0) = Settled (Rejected (Val 1)))"
proof -
  define w where
    "w = run [Enqueue, Enqueue, Tick, Tick, Tick, Tick, Settle 0 (Rejected (Val 1))] initial"
  have a: "state_of w (Ext 0) = Settled (Rejected (Val 1))"
    unfolding w_def by code_simp
  have b: "calls w = [0]"
    unfolding w_def by code_simp
  have c: "queue_log w = [Task 0, Task 1]"
    unfolding w_def by code_simp
  obtain n where
    1: "\<And>i. Suc i < length (queue_log w) \<and> i < length (calls w) \<and>
           state_of w (Ext i) \<noteq> Pending \<longrightarrow>
           calls (run (replicate n Tick) w) ! Suc i = task_of (queue_log w ! Suc i)"
    and 2: "\<And>i out. i < length (calls w) \<and> state_of w (Ext i) = Settled out \<longrightarrow>
           state_of (run (replicate n Tick) w) (Ret i) = Settled out"
    using failing_task_does_not_block
      [of "[Enqueue, Enqueue, Tick, Tick, Tick, Tick, Settle 0 (Rejected (Val 1))]",
        folded w_def]
    unfolding Let_def by blast
  have "calls (run (replicate n Tick) w) ! Suc 0 = 1"
    using 1 [of 0] a b c by simp
  moreover have "state_of (run (replicate n Tick) w) (Ret 0) = Settled (Rejected (Val 1))"
    using 2 [of 0 "Rejected (Val 1)"] a b by simp
  ultimately have "\<exists>n. calls (run (replicate n Tick) w) ! Suc 0 = 1 \<and>
      state_of (run (replicate n Tick) w) (Ret 0) = Settled (Rejected (Val 1))"
    by blast
  then show ?thesis
    using a b unfolding w_def by blast
qed

text \<open>
  Claim C2. In the state \<open>w\<close> reached by any interleaving of events, for a player with key
  \<open>key\<close>: if the table has an entry for the key, \<open>enqueueMoveOnce\<close> answers
  \<open>deduped: true\<close> with the promise of the entry and changes nothing; if it has none, the
  answer is \<open>deduped: false\<close> with the promise returned by \<open>enqueue\<close>, the closure of the
  task is the new last entry of the queue, and the table maps the key to that promise.
  At most one entry of the queue is live for the key, and the table has an entry for the
  key exactly when one is live, then with its promise. And the microtask queue can be run
  to a state \<open>w'\<close> where, if the task of the entry of the key was called and has settled
  in \<open>w\<close>, fulfilled or rejected alike, the table has no entry for the key, so that the
  next request of the player is not deduped.
\<close>

theorem enqueueMoveOnce_table:
  "let w = run evs initial; key = toLowerCase player in
     (\<forall>h. moveInFlight w key = Some h \<longrightarrow> enqueueMoveOnce player t w = ((True, h), w)) \<and>
     (moveInFlight w key = None \<longrightarrow>
        fst (enqueueMoveOnce player t w) = (False, Ret (length (queue_log w))) \<and>
        queue_log (snd (enqueueMoveOnce player t w)) = queue_log w @ [MoveTask key t] \<and>
        moveInFlight (snd (enqueueMoveOnce player t w)) =
          (moveInFlight w)(key \<mapsto> Ret (length (queue_log w)))) \<and>
     (\<forall>i j. live_move w key i \<and> live_move w key j \<longrightarrow> i = j) \<and>
     (\<forall>h. moveInFlight w key = Some h \<longleftrightarrow> (\<exists>i. live_move w key i \<and> h = Ret i)) \<and>
     (\<exists>n. let w' = run (replicate n Tick) w in
        \<forall>i. moveInFlight w key = Some (Ret i) \<and> i < length (calls w) \<and>
          state_of w (Ext i) \<noteq> Pending \<longrightarrow>
          moveInFlight w' key = None \<and> \<not> fst (fst (enqueueMoveOnce player t w')))"
proof -
  define w where "w = run evs initial"
  define key where "key = toLowerCase player"
  have I: "inv w" unfolding w_def by (rule run_initial_inv)
  note M = invD(5) [OF I]
  have 1: "enqueueMoveOnce player t w = ((True, h), w)" if "moveInFlight w key = Some h" for h
    using that by (simp add: enqueueMoveOnce_def key_def)
  have 2: "fst (enqueueMoveOnce player t w) = (False, Ret (length (queue_log w))) \<and>
        queue_log (snd (enqueueMoveOnce player t w)) = queue_log w @ [MoveTask key t] \<and>
        moveInFlight (snd (enqueueMoveOnce player t w)) =
          (moveInFlight w)(key \<mapsto> Ret (length (queue_log w)))"
    if "moveInFlight w key = None"
    using that by (simp add: enqueueMoveOnce_def key_def [symmetric] split_beta)
  have 3: "i = j" if "live_move w key i" "live_move w key j" for i j
    using live_unique [OF M that] .
  have 4: "moveInFlight w key = Some h \<longleftrightarrow> (\<exists>i. live_move w key i \<and> h = Ret i)" for h
    using table_live [OF M] .
  obtain n where q: "microtasks (run (replicate n Tick) w) = []"
    using drain [OF I] by blast
  define w' where "w' = run (replicate n Tick) w"
  have I': "inv w'" unfolding w'_def using I by (rule run_inv)
  have q': "microtasks w' = []" using q by (simp add: w'_def)
  have ql: "queue_log w' = queue_log w" unfolding w'_def by (rule ticks_queue_log)
  have pc: "prefix (calls w) (calls w')" unfolding w'_def by (rule run_calls)
  have 5: "moveInFlight w' key = None \<and> \<not> fst (fst (enqueueMoveOnce player t w'))"
    if t: "moveInFlight w key = Some (Ret i)" and k: "i < length (calls w)"
      and e: "state_of w (Ext i) \<noteq> Pending" for i
  proof -
    have li: "live_move w key i" using t 4 by blast
    obtain out where "state_of w (Ext i) = Settled out"
      using e by (cases "state_of w (Ext i)") auto
    then have e': "state_of w' (Ext i) = Settled out"
      unfolding w'_def using k by (intro run_settled) simp_all
    have k': "i < length (calls w')" using k prefix_length_le [OF pc] by simp
    have mv: "is_move (queue_log w' ! i)" using li by (simp add: live_move_def ql)
    have dead: "\<not> live_move w' key i"
      using quiet_settled(2) [OF I' q' k' e' mv] k' by (simp add: live_move_def)
    have "\<not> live_move w' key j" for j
    proof
      assume l: "live_move w' key j"
      then have "live_move w key j"
        unfolding w'_def using ql [unfolded w'_def] by (rule live_after)
      then have "j = i" using li by (rule 3)
      then show False using l dead by simp
    qed
    then have "moveInFlight w' key = None"
      using table_live [OF invD(5) [OF I'], of key] by (cases "moveInFlight w' key") auto
    then show ?thesis
      by (simp add: enqueueMoveOnce_def key_def [symmetric] split_beta)
  qed
  have "\<exists>n. let w' = run (replicate n Tick) w in
        \<forall>i. moveInFlight w key = Some (Ret i) \<and> i < length (calls w) \<and>
          state_of w (Ext i) \<noteq> Pending \<longrightarrow>
          moveInFlight w' key = None \<and> \<not> fst (fst (enqueueMoveOnce player t w'))"
    unfolding Let_def w'_def [symmetric]
    by (rule exI [of _ n]) (use 5 in \<open>unfold w'_def [symmetric], blast\<close>)
  then show ?thesis
    unfolding w_def [symmetric] key_def [symmetric] Let_def
    using 1 2 3 4 unfolding Let_def by blast
qed

theorem enqueueMoveOnce_table_witness:
  "moveInFlight (run [Move ''0xAB'', Tick, Settle 0 (Fulfilled (Val 5))] initial)
      (toLowerCase ''0xAB'') = Some (Ret 0) \<and>
   state_of (run [Move ''0xAB'', Tick, Settle 0 (Fulfilled (Val 5))] initial) (Ext 0) =
      Settled (Fulfilled (Val 5)) \<and>
   (\<exists>n. moveInFlight (run (replicate n Tick)
        (run [Move ''0xAB'', Tick, Settle 0 (Fulfilled (Val 5))] initial))
        (toLowerCase ''0xAB'') = None)"
proof -
  define w where "w = run [Move ''0xAB'', Tick, Settle 0 (Fulfilled (Val 5))] initial"
  have a: "moveInFlight w (toLowerCase ''0xAB'') = Some (Ret 0)"
    unfolding w_def by code_simp
  have b: "state_of w (Ext 0) = Settled (Fulfilled (Val 5))"
    unfolding w_def by code_simp
  have c: "calls w = [0]"
    unfolding w_def by code_simp
  obtain n where
    1: "\<And>i. moveInFlight w (toLowerCase ''0xAB'') = Some (Ret i) \<and> i < length (calls w) \<and>
          state_of w (Ext i) \<noteq> Pending \<longrightarrow>
          moveInFlight (run (replicate n Tick) w) (toLowerCase ''0xAB'') = None"
    using enqueueMoveOnce_table
      [of "[Move ''0xAB'', Tick, Settle 0 (Fulfilled (Val 5))]" "''0xAB''" 0, folded w_def]
    unfolding Let_def by blast
  have "moveInFlight (run (replicate n Tick) w) (toLowerCase ''0xAB'') = None"
    using 1 [of 0] a b c by simp
  then have "\<exists>n. moveInFlight (run (replicate n Tick) w) (toLowerCase ''0xAB'') = None"
    by blast
  then show ?thesis
    using a b unfolding w_def by blast
qed



end
